theory Spec2Isabelle
  imports Complex_Main "HOL-Library.AList"
begin

section \<open>The scheduler of tawazi (\<^verbatim>\<open>tawazi/_dag/helpers.py\<close>)\<close>

text \<open>
  The scheduler runs on one coordinator thread; the nodes run on the threads of a
  \<^verbatim>\<open>ThreadPoolExecutor\<close>. The embedding keeps the coordinator's code as functions and makes
  everything the workers and the clock do explicit: the \<^emph>\<open>world\<close> holds the objects the
  coordinator shares with the workers (the \<^verbatim>\<open>ExecNode\<close> objects, the futures, the monotonic
  clock), and an \<^emph>\<open>event\<close> says which futures finished, with which outcome, and how much
  time passed between two observations of the coordinator. A run of \<^verbatim>\<open>execute\<close> is a
  function of its arguments and of the events it is given; no theorem below restricts the
  events, so each holds for every interleaving of the workers with the coordinator.
\<close>

subsection \<open>Data\<close>

type_synonym Identifier = string

text \<open>Python object references: the address of an \<^verbatim>\<open>ExecNode\<close> in the store, and a
  \<^verbatim>\<open>Future\<close> as its position in the executor's list of submitted tasks.\<close>

type_synonym addr = nat
type_synonym Future = nat

text \<open>Results of nodes, with Python's truthiness. \<open>NoVal\<close> is the empty result slot; its
  truthiness is not in the sources, and no theorem below depends on it.\<close>

datatype pyval = NoVal | PyNone | PyBool bool | PyInt int | PyStr string

fun truthy :: "pyval \<Rightarrow> bool" where
  "truthy NoVal = False"
| "truthy PyNone = False"
| "truthy (PyBool b) = b"
| "truthy (PyInt i) = (i \<noteq> 0)"
| "truthy (PyStr s) = (s \<noteq> [])"

text \<open>\<^verbatim>\<open>xn.active\<close> is a \<^verbatim>\<open>bool\<close>, or an object whose \<^verbatim>\<open>.id\<close> names another node.\<close>

datatype activation = ActiveBool bool | ActiveRef Identifier

text \<open>The attributes of an \<^verbatim>\<open>ExecNode\<close> the scheduler reads. Times are real numbers of
  seconds (rounding of floats is not modelled); a configured timeout is finite.\<close>

record ExecNode =
  xn_id :: Identifier
  priority :: int
  compound_priority :: int
  is_sequential :: bool
  timeout :: "real option"
  xn_setup :: bool
  active :: activation
  executed :: bool
  result :: pyval

datatype ErrorStrategy = strict | permissive | all_children | other_strategy string

text \<open>The exceptions that leave the scheduler. \<open>UserNodeError\<close> is the exception of a
  node's \<^verbatim>\<open>run\<close>, re-raised by \<^verbatim>\<open>fut.result()\<close>; \<open>GraphError\<close> is the error of the graph
  operations (their module is outside the sources, see below).\<close>

datatype error =
    KeyError Identifier
  | ValueError
  | GraphError Identifier
  | UserNodeError string
  | NotImplementedError ErrorStrategy
  | TawaziTimeoutError "Future list" "real option"

subsection \<open>The working graph\<close>

text \<open>\<^verbatim>\<open>tawazi/_dag/digraph.py\<close> is not among the sources. The graph is a list of node ids
  (in iteration order) and a list of edges from dependency to dependent.\<close>

record DiGraphEx =
  nodes :: "Identifier list"
  edges :: "(Identifier \<times> Identifier) list"

text \<open>Modelled from the spec: \<^verbatim>\<open>len()\<close>, the number of remaining ids (\<^verbatim>\<open>DiGraphEx\<close> is
  not in the sources).\<close>

definition len :: "DiGraphEx \<Rightarrow> nat" where
  "len g = length (nodes g)"

text \<open>Modelled from the spec: \<^verbatim>\<open>roots()\<close>, all ids with no remaining predecessor
  (\<^verbatim>\<open>DiGraphEx.root_nodes\<close> is not in the sources).\<close>

definition root_nodes :: "DiGraphEx \<Rightarrow> Identifier list" where
  "root_nodes g = filter (\<lambda>n. n \<notin> snd ` set (edges g)) (nodes g)"

text \<open>Modelled from the spec: \<^verbatim>\<open>successors(id)\<close>, the direct dependents
  (\<^verbatim>\<open>DiGraphEx.successors\<close> is not in the sources).\<close>

definition successors :: "DiGraphEx \<Rightarrow> Identifier \<Rightarrow> Identifier list" where
  "successors g i = map snd (filter (\<lambda>e. fst e = i) (edges g))"

text \<open>Deleting a set of ids with their incident edges.\<close>

definition delete_nodes :: "(Identifier \<Rightarrow> bool) \<Rightarrow> DiGraphEx \<Rightarrow> DiGraphEx" where
  "delete_nodes P g =
     \<lparr>nodes = filter (\<lambda>n. \<not> P n) (nodes g),
      edges = filter (\<lambda>e. \<not> P (fst e) \<and> \<not> P (snd e)) (edges g)\<rparr>"

text \<open>Modelled from the spec: \<^verbatim>\<open>remove(id)\<close> deletes the node and its incident edges;
  removing an id that is not present is a \<^verbatim>\<open>GraphError\<close> (\<^verbatim>\<open>DiGraphEx.remove_node\<close> is not
  in the sources).\<close>

definition remove_node :: "DiGraphEx \<Rightarrow> Identifier \<Rightarrow> error + DiGraphEx" where
  "remove_node g i =
     (if i \<in> set (nodes g) then Inr (delete_nodes (\<lambda>n. n = i) g) else Inl (GraphError i))"

text \<open>Modelled from the spec: \<^verbatim>\<open>remove_recursively(id)\<close> deletes the node and all its
  transitive descendants; an id that is not present is a \<^verbatim>\<open>GraphError\<close>
  (\<^verbatim>\<open>DiGraphEx.remove_recursively\<close> is not in the sources).\<close>

definition remove_recursively :: "DiGraphEx \<Rightarrow> Identifier \<Rightarrow> error + DiGraphEx" where
  "remove_recursively g i =
     (if i \<in> set (nodes g)
      then Inr (delete_nodes (\<lambda>n. n = i \<or> (i, n) \<in> (set (edges g))\<^sup>+) g)
      else Inl (GraphError i))"

subsection \<open>The world shared with the workers\<close>

text \<open>A submitted task: the \<^verbatim>\<open>ExecNode\<close> whose \<^verbatim>\<open>_execute\<close> it runs, and its outcome once
  the future is done (\<open>Inl\<close> the exception of the run, \<open>Inr\<close> its value).\<close>

record task =
  task_xn :: addr
  task_outcome :: "(string + pyval) option"

record world =
  heap :: "ExecNode list"
  pool :: "task list"
  clock :: real

definition fut_outcome :: "task list \<Rightarrow> Future \<Rightarrow> (string + pyval) option" where
  "fut_outcome p f = (if f < length p then task_outcome (p ! f) else None)"

text \<open>\<^verbatim>\<open>fut.done()\<close>\<close>

definition fut_done :: "task list \<Rightarrow> Future \<Rightarrow> bool" where
  "fut_done p f = (fut_outcome p f \<noteq> None)"

text \<open>What the workers did between two observations: the futures that finished, each
  with its outcome, and the time that passed. A run that returns a value has written it
  to the \<^verbatim>\<open>result\<close> of its node before its future is done.\<close>

record event =
  completes :: "(Future \<times> (string + pyval)) list"
  elapsed :: real

definition complete :: "Future \<times> (string + pyval) \<Rightarrow> world \<Rightarrow> world" where
  "complete c w =
     (if fst c < length (pool w) \<and> task_outcome (pool w ! fst c) = None
      then w\<lparr>pool := (pool w)[fst c := (pool w ! fst c)\<lparr>task_outcome := Some (snd c)\<rparr>],
              heap := (case snd c of
                         Inl _ \<Rightarrow> heap w
                       | Inr v \<Rightarrow> (heap w)[task_xn (pool w ! fst c) :=
                                    (heap w ! task_xn (pool w ! fst c))\<lparr>result := v\<rparr>])\<rparr>
      else w)"

definition happen :: "event \<Rightarrow> world \<Rightarrow> world" where
  "happen ev w = (fold complete (completes ev) w)\<lparr>clock := clock w + max 0 (elapsed ev)\<rparr>"

text \<open>\<^verbatim>\<open>concurrent.futures.wait(fs, timeout, return_when)\<close>: the done and the not-done
  futures of \<open>fs\<close> when the call returns. The event is what happened until then. The call
  returns when one future of \<open>fs\<close> is done (\<open>FIRST_COMPLETED\<close>), when all are, or when the
  timeout has passed; otherwise it never returns (\<open>None\<close>).\<close>

datatype return_when = FIRST_COMPLETED | ALL_COMPLETED

definition wait ::
  "Future list \<Rightarrow> return_when \<Rightarrow> real option \<Rightarrow> event \<Rightarrow> world
     \<Rightarrow> (Future list \<times> Future list \<times> world) option" where
  "wait fs rw tmo ev w =
     (let w' = happen ev w;
          done' = filter (fut_done (pool w')) (remdups fs);
          not_done = filter (\<lambda>f. \<not> fut_done (pool w') f) (remdups fs)
      in if (rw = FIRST_COMPLETED \<and> done' \<noteq> []) \<or> not_done = [] \<or>
            (case tmo of None \<Rightarrow> False | Some t \<Rightarrow> t \<le> elapsed ev)
         then Some (done', not_done, w')
         else None)"

subsection \<open>Helpers of the scheduler\<close>

text \<open>\<^verbatim>\<open>d[k]\<close> on a dictionary, kept as an association list in insertion order.\<close>

definition getitem :: "(Identifier \<times> 'v) list \<Rightarrow> Identifier \<Rightarrow> error + 'v" where
  "getitem d k = (case map_of d k of None \<Rightarrow> Inl (KeyError k) | Some v \<Rightarrow> Inr v)"

text \<open>\<^verbatim>\<open>_xn_active_in_call\<close>\<close>

definition xn_active_in_call ::
  "ExecNode list \<Rightarrow> addr \<Rightarrow> (Identifier \<times> addr) list \<Rightarrow> error + bool" where
  "xn_active_in_call h xn xns_dict =
     (case active (h ! xn) of
        ActiveBool b \<Rightarrow> Inr b
      | ActiveRef r \<Rightarrow>
          (case getitem xns_dict r of
             Inl err \<Rightarrow> Inl err
           | Inr a \<Rightarrow> Inr (truthy (result (h ! a)))))"

text \<open>\<^verbatim>\<open>copy_non_setup_xns\<close>: a setup node keeps its object, every other node gets a new
  object (\<^verbatim>\<open>copy(x_nd)\<close>, allocated at the end of the store) with the same attributes.\<close>

fun copy_non_setup_xns ::
  "ExecNode list \<Rightarrow> (Identifier \<times> addr) list \<Rightarrow> ExecNode list \<times> (Identifier \<times> addr) list" where
  "copy_non_setup_xns h [] = (h, [])"
| "copy_non_setup_xns h ((id', x_nd) # rest) =
     (if xn_setup (h ! x_nd)
      then (case copy_non_setup_xns h rest of (h', x_nodes_copy) \<Rightarrow> (h', (id', x_nd) # x_nodes_copy))
      else (case copy_non_setup_xns (h @ [h ! x_nd]) rest of
              (h', x_nodes_copy) \<Rightarrow> (h', (id', length h) # x_nodes_copy)))"

text \<open>\<^verbatim>\<open>get_num_running_threads\<close>\<close>

definition get_num_running_threads :: "task list \<Rightarrow> (Identifier \<times> Future) list \<Rightarrow> nat" where
  "get_num_running_threads p futures = length (filter (\<lambda>kv. \<not> fut_done p (snd kv)) futures)"

text \<open>\<^verbatim>\<open>get_highest_priority_nodes\<close>; \<^verbatim>\<open>max\<close> of an empty sequence raises.\<close>

definition get_highest_priority_nodes :: "ExecNode list \<Rightarrow> addr list \<Rightarrow> error + addr list" where
  "get_highest_priority_nodes h nds =
     (if nds = [] then Inl ValueError
      else (let highest_priority = Max (set (map (\<lambda>a. priority (h ! a)) nds))
            in Inr (filter (\<lambda>a. priority (h ! a) = highest_priority) nds)))"

text \<open>\<^verbatim>\<open>get_next_timeout\<close>. The variable \<^verbatim>\<open>next_timeout\<close> starts as \<^verbatim>\<open>float("inf")\<close>.\<close>

datatype pyfloat = Finite real | Infinity

fun fmin :: "pyfloat \<Rightarrow> real \<Rightarrow> pyfloat" where
  "fmin Infinity r = Finite r"
| "fmin (Finite a) r = Finite (min a r)"

fun next_timeout_loop ::
  "world \<Rightarrow> (Identifier \<times> real) list \<Rightarrow> (Identifier \<times> addr) list
     \<Rightarrow> (Identifier \<times> Future) list \<Rightarrow> pyfloat \<Rightarrow> error + pyfloat" where
  "next_timeout_loop w flt xns_dict [] next_timeout = Inr next_timeout"
| "next_timeout_loop w flt xns_dict ((id', fut) # rest) next_timeout =
     (if \<not> fut_done (pool w) fut then
        (case getitem flt id' of
           Inl err \<Rightarrow> Inl err
         | Inr launch_time \<Rightarrow>
             (case getitem xns_dict id' of
                Inl err \<Rightarrow> Inl err
              | Inr a \<Rightarrow>
                  (case timeout (heap w ! a) of
                     None \<Rightarrow> next_timeout_loop w flt xns_dict rest next_timeout
                   | Some t \<Rightarrow>
                       next_timeout_loop w flt xns_dict rest (fmin next_timeout (launch_time + t)))))
      else next_timeout_loop w flt xns_dict rest next_timeout)"

definition get_next_timeout ::
  "world \<Rightarrow> (Identifier \<times> real) list \<Rightarrow> (Identifier \<times> Future) list
     \<Rightarrow> (Identifier \<times> addr) list \<Rightarrow> error + real option" where
  "get_next_timeout w futures_launch_time futures xns_dict =
     (case next_timeout_loop w futures_launch_time xns_dict futures Infinity of
        Inl err \<Rightarrow> Inl err
      | Inr Infinity \<Rightarrow> Inr None
      | Inr (Finite next_timeout) \<Rightarrow> Inr (Some (next_timeout - clock w)))"

text \<open>\<^verbatim>\<open>raise_timeout_error_conditionally\<close>\<close>

definition raise_timeout_error_conditionally ::
  "Future list \<Rightarrow> Future list \<Rightarrow> real option \<Rightarrow> error + unit" where
  "raise_timeout_error_conditionally done' running next_timeout =
     (if done' = [] then Inl (TawaziTimeoutError running next_timeout) else Inr ())"

subsection \<open>The error handler\<close>

text \<open>The loop of \<^verbatim>\<open>handle_exception\<close> over \<^verbatim>\<open>list(graph.successors(id_))\<close>.\<close>

fun remove_children :: "DiGraphEx \<Rightarrow> Identifier list \<Rightarrow> error + DiGraphEx" where
  "remove_children g [] = Inr g"
| "remove_children g (children_ids # rest) =
     (case remove_recursively g children_ids of
        Inl err \<Rightarrow> Inl err
      | Inr g' \<Rightarrow> remove_children g' rest)"

text \<open>\<^verbatim>\<open>handle_exception\<close>. The scheduler calls it on finished futures only, so
  \<^verbatim>\<open>fut.result()\<close> does not block: \<open>fut_result\<close> is what it yields, \<open>Inl\<close> the exception it
  raises (an instance of \<^verbatim>\<open>Exception\<close>) or \<open>Inr\<close> the value it returns. The graph is updated in
  place in the source and returned here.\<close>

definition handle_exception ::
  "ErrorStrategy \<Rightarrow> DiGraphEx \<Rightarrow> string + pyval \<Rightarrow> Identifier \<Rightarrow> error + DiGraphEx" where
  "handle_exception behavior g fut_result id' =
     (if behavior = strict then
        (case fut_result of Inl e \<Rightarrow> Inl (UserNodeError e) | Inr _ \<Rightarrow> Inr g)
      else
        (case fut_result of
           Inr _ \<Rightarrow> Inr g
         | Inl e \<Rightarrow>
             if behavior = permissive then Inr g
             else if behavior = all_children then remove_children g (successors g id')
             else Inl (NotImplementedError behavior)))"

subsection \<open>The scheduler\<close>

text \<open>The local variables of \<^verbatim>\<open>execute\<close>. \<open>done_futs\<close> is the variable \<^verbatim>\<open>done\<close>.\<close>

record sched =
  xns_dict :: "(Identifier \<times> addr) list"
  graph :: DiGraphEx
  futures :: "(Identifier \<times> Future) list"
  done_futs :: "Future list"
  running :: "Future list"
  futures_launch_time :: "(Identifier \<times> real) list"
  runnable_xns_ids :: "Identifier list"

text \<open>What the workers do during one iteration of the \<^verbatim>\<open>while\<close> loop, one event before
  each place where the coordinator looks at the futures or blocks:
  before line 162, during the wait of line 172, before the loop of line 182, before
  line 215, during the wait of line 223, and during the wait of line 251.\<close>

record env =
  ev_top :: event
  ev_wait1 :: event
  ev_reap :: event
  ev_pick :: event
  ev_wait2 :: event
  ev_wait3 :: event

text \<open>The three statements that follow each other at lines 170-174, 221-225 and 248-255:
  \<^verbatim>\<open>get_next_timeout\<close>, \<^verbatim>\<open>wait\<close>, \<^verbatim>\<open>raise_timeout_error_conditionally\<close>. The result is the
  new value of \<^verbatim>\<open>done_\<close> and of \<^verbatim>\<open>running\<close>.\<close>

definition timed_wait ::
  "Future list \<Rightarrow> return_when \<Rightarrow> event \<Rightarrow> world \<Rightarrow> sched
     \<Rightarrow> (error + Future list \<times> Future list \<times> world) option" where
  "timed_wait fs rw ev w s =
     (case get_next_timeout w (futures_launch_time s) (futures s) (xns_dict s) of
        Inl err \<Rightarrow> Some (Inl err)
      | Inr next_timeout \<Rightarrow>
          (case wait fs rw next_timeout ev w of
             None \<Rightarrow> None
           | Some (done', running', w') \<Rightarrow>
               (case raise_timeout_error_conditionally done' running' next_timeout of
                  Inl err \<Rightarrow> Some (Inl err)
                | Inr _ \<Rightarrow> Some (Inr (done', running', w')))))"

text \<open>Lines 162-176: block while the pool is saturated or nothing is runnable.\<close>

definition block_if_needed ::
  "int \<Rightarrow> env \<Rightarrow> world \<Rightarrow> sched \<Rightarrow> (error + world \<times> sched) option" where
  "block_if_needed max_concurrency e w0 s =
     (let w = happen (ev_top e) w0;
          num_running_threads = get_num_running_threads (pool w) (futures s);
          num_runnable_nodes_ids = length (runnable_xns_ids s)
      in if int num_running_threads = max_concurrency \<or> num_runnable_nodes_ids = 0 then
           (case timed_wait (running s) FIRST_COMPLETED (ev_wait1 e) w s of
              None \<Rightarrow> None
            | Some (Inl err) \<Rightarrow> Some (Inl err)
            | Some (Inr (done', running', w')) \<Rightarrow>
                Some (Inr (w', s\<lparr>running := running',
                                 done_futs := List.union (done_futs s) done'\<rparr>)))
         else Some (Inr (w, s)))"

text \<open>Lines 182-186: the finished futures whose node is still in the graph.\<close>

fun reap ::
  "ErrorStrategy \<Rightarrow> task list \<Rightarrow> (Identifier \<times> Future) list \<Rightarrow> DiGraphEx \<Rightarrow> error + DiGraphEx" where
  "reap behavior p [] g = Inr g"
| "reap behavior p ((id', fut) # rest) g =
     (case fut_outcome p fut of
        None \<Rightarrow> reap behavior p rest g
      | Some fut_result \<Rightarrow>
          if id' \<in> set (nodes g) then
            (case handle_exception behavior g fut_result id' of
               Inl err \<Rightarrow> Inl err
             | Inr g1 \<Rightarrow>
                 (case remove_node g1 id' of
                    Inl err \<Rightarrow> Inl err
                  | Inr g2 \<Rightarrow> reap behavior p rest g2))
          else reap behavior p rest g)"

text \<open>Line 189: \<^verbatim>\<open>list(set(graph.root_nodes()) - set(futures.keys()))\<close>. Python does not fix
  the order of a set; the model lists the ids in the order of the graph.\<close>

definition ready_ids :: "DiGraphEx \<Rightarrow> (Identifier \<times> Future) list \<Rightarrow> Identifier list" where
  "ready_ids g futs = filter (\<lambda>n. n \<notin> fst ` set futs) (remdups (root_nodes g))"

text \<open>Line 200: \<^verbatim>\<open>[xns_dict[node_id] for node_id in runnable_xns_ids]\<close>\<close>

fun lookup_all :: "(Identifier \<times> addr) list \<Rightarrow> Identifier list \<Rightarrow> error + addr list" where
  "lookup_all d [] = Inr []"
| "lookup_all d (node_id # rest) =
     (case getitem d node_id of
        Inl err \<Rightarrow> Inl err
      | Inr a \<Rightarrow> (case lookup_all d rest of Inl err \<Rightarrow> Inl err | Inr as \<Rightarrow> Inr (a # as)))"

text \<open>Lines 200-206: the node to run, the last one after the (stable) sort of the nodes of
  highest priority by compound priority.\<close>

definition choose_node ::
  "ExecNode list \<Rightarrow> (Identifier \<times> addr) list \<Rightarrow> Identifier list \<Rightarrow> error + addr" where
  "choose_node h d runnable =
     (case lookup_all d runnable of
        Inl err \<Rightarrow> Inl err
      | Inr runnable_xns \<Rightarrow>
          (case get_highest_priority_nodes h runnable_xns of
             Inl err \<Rightarrow> Inl err
           | Inr highest_priority_xns \<Rightarrow>
               Inr (last (sort_key (\<lambda>a. compound_priority (h ! a)) highest_priority_xns))))"

text \<open>Lines 162-206: block if needed, reap, and choose a node among the runnable ones.
  The result holds no node when the iteration ends at the \<^verbatim>\<open>continue\<close> of line 195.\<close>

definition pick_node ::
  "int \<Rightarrow> ErrorStrategy \<Rightarrow> env \<Rightarrow> world \<Rightarrow> sched
     \<Rightarrow> (error + addr option \<times> world \<times> sched) option" where
  "pick_node max_concurrency behavior e w0 s0 =
     (case block_if_needed max_concurrency e w0 s0 of
        None \<Rightarrow> None
      | Some (Inl err) \<Rightarrow> Some (Inl err)
      | Some (Inr (w1, s1)) \<Rightarrow>
          (let w2 = happen (ev_reap e) w1 in
           case reap behavior (pool w2) (futures s1) (graph s1) of
             Inl err \<Rightarrow> Some (Inl err)
           | Inr g \<Rightarrow>
               (let s2 = s1\<lparr>graph := g, runnable_xns_ids := ready_ids g (futures s1)\<rparr>
                in if length (runnable_xns_ids s2) = 0 then Some (Inr (None, w2, s2))
                   else (case choose_node (heap w2) (xns_dict s2) (runnable_xns_ids s2) of
                           Inl err \<Rightarrow> Some (Inl err)
                         | Inr xn \<Rightarrow> Some (Inr (Some xn, w2, s2))))))"

text \<open>What is left of the iteration after line 206 is a \<^verbatim>\<open>continue\<close>, or line 237 with the
  node \<open>xn\<close> to submit.\<close>

datatype action = Continue world sched | Submit addr world sched

text \<open>Lines 215-234, for the chosen node \<open>xn\<close>: wait if it is sequential and a future is
  not done, prune it if it is not active.\<close>

definition check_node :: "env \<Rightarrow> addr \<Rightarrow> world \<Rightarrow> sched \<Rightarrow> (error + action) option" where
  "check_node e xn w2 s =
     (let w = happen (ev_pick e) w2;
          num_running_threads = get_num_running_threads (pool w) (futures s)
      in if is_sequential (heap w ! xn) \<and> num_running_threads \<noteq> 0 then
           (case timed_wait (running s) FIRST_COMPLETED (ev_wait2 e) w s of
              None \<Rightarrow> None
            | Some (Inl err) \<Rightarrow> Some (Inl err)
            | Some (Inr (done', running', w')) \<Rightarrow>
                Some (Inr (Continue w' (s\<lparr>running := running'\<rparr>))))
         else
           (case xn_active_in_call (heap w) xn (xns_dict s) of
              Inl err \<Rightarrow> Some (Inl err)
            | Inr act \<Rightarrow>
                if \<not> act then
                  (case remove_recursively (graph s) (xn_id (heap w ! xn)) of
                     Inl err \<Rightarrow> Some (Inl err)
                   | Inr g \<Rightarrow> Some (Inr (Continue w (s\<lparr>graph := g\<rparr>))))
                else Some (Inr (Submit xn w s))))"

text \<open>Lines 162-234.\<close>

definition loop_pre ::
  "int \<Rightarrow> ErrorStrategy \<Rightarrow> env \<Rightarrow> world \<Rightarrow> sched \<Rightarrow> (error + action) option" where
  "loop_pre max_concurrency behavior e w0 s0 =
     (case pick_node max_concurrency behavior e w0 s0 of
        None \<Rightarrow> None
      | Some (Inl err) \<Rightarrow> Some (Inl err)
      | Some (Inr (None, w2, s2)) \<Rightarrow> Some (Inr (Continue w2 s2))
      | Some (Inr (Some xn, w2, s2)) \<Rightarrow> check_node e xn w2 s2)"

text \<open>Lines 237-240: the new future is the next position of the pool; \<^verbatim>\<open>monotonic()\<close> reads
  the clock.\<close>

definition submit :: "addr \<Rightarrow> world \<Rightarrow> sched \<Rightarrow> world \<times> sched" where
  "submit xn w s =
     (let exec_future = length (pool w)
      in (w\<lparr>pool := pool w @ [\<lparr>task_xn = xn, task_outcome = None\<rparr>]\<rparr>,
          s\<lparr>running := List.insert exec_future (running s),
            futures := AList.update (xn_id (heap w ! xn)) exec_future (futures s),
            futures_launch_time :=
              AList.update (xn_id (heap w ! xn)) (clock w) (futures_launch_time s)\<rparr>))"

text \<open>Lines 237-255: submit \<open>xn\<close>; wait for it when it is sequential.\<close>

definition submit_node :: "env \<Rightarrow> addr \<Rightarrow> world \<Rightarrow> sched \<Rightarrow> (error + world \<times> sched) option" where
  "submit_node e xn w s =
     (case submit xn w s of
        (w1, s1) \<Rightarrow>
          if is_sequential (heap w1 ! xn) then
            (case timed_wait (map snd (futures s1)) ALL_COMPLETED (ev_wait3 e) w1 s1 of
               None \<Rightarrow> None
             | Some (Inl err) \<Rightarrow> Some (Inl err)
             | Some (Inr (done', running', w')) \<Rightarrow> Some (Inr (w', s1\<lparr>running := running'\<rparr>)))
          else Some (Inr (w1, s1)))"

text \<open>The body of the \<^verbatim>\<open>while\<close> loop.\<close>

definition loop_body ::
  "int \<Rightarrow> ErrorStrategy \<Rightarrow> env \<Rightarrow> world \<Rightarrow> sched \<Rightarrow> (error + world \<times> sched) option" where
  "loop_body max_concurrency behavior e w s =
     (case loop_pre max_concurrency behavior e w s of
        None \<Rightarrow> None
      | Some (Inl err) \<Rightarrow> Some (Inl err)
      | Some (Inr (Continue w' s')) \<Rightarrow> Some (Inr (w', s'))
      | Some (Inr (Submit xn w' s')) \<Rightarrow> submit_node e xn w' s')"

text \<open>\<^verbatim>\<open>while len(graph):\<close> over the events of the iterations. \<open>None\<close>: a wait never returns,
  or the loop is still running when the events end.\<close>

fun while_graph ::
  "int \<Rightarrow> ErrorStrategy \<Rightarrow> env list \<Rightarrow> world \<Rightarrow> sched \<Rightarrow> (error + world \<times> sched) option" where
  "while_graph max_concurrency behavior [] w s =
     (if len (graph s) = 0 then Some (Inr (w, s)) else None)"
| "while_graph max_concurrency behavior (e # es) w s =
     (if len (graph s) = 0 then Some (Inr (w, s))
      else (case loop_body max_concurrency behavior e w s of
              None \<Rightarrow> None
            | Some (Inl err) \<Rightarrow> Some (Inl err)
            | Some (Inr (w', s')) \<Rightarrow> while_graph max_concurrency behavior es w' s'))"

text \<open>Lines 138-140: the nodes that are already executed leave the graph.\<close>

fun precomputed ::
  "ExecNode list \<Rightarrow> (Identifier \<times> addr) list \<Rightarrow> Identifier list \<Rightarrow> error + Identifier list" where
  "precomputed h d [] = Inr []"
| "precomputed h d (id' # rest) =
     (case getitem d id' of
        Inl err \<Rightarrow> Inl err
      | Inr a \<Rightarrow>
          (case precomputed h d rest of
             Inl err \<Rightarrow> Inl err
           | Inr ids \<Rightarrow> Inr (if executed (h ! a) then id' # ids else ids)))"

fun remove_nodes :: "DiGraphEx \<Rightarrow> Identifier list \<Rightarrow> error + DiGraphEx" where
  "remove_nodes g [] = Inr g"
| "remove_nodes g (id' # rest) =
     (case remove_node g id' of Inl err \<Rightarrow> Inl err | Inr g' \<Rightarrow> remove_nodes g' rest)"

text \<open>Lines 135-152: the state in which the loop starts. \<^verbatim>\<open>modified_node_dict or ...\<close> takes
  the copy when the argument is \<^verbatim>\<open>None\<close> and when it is an empty dictionary.
  \<^verbatim>\<open>ThreadPoolExecutor\<close> raises \<^verbatim>\<open>ValueError\<close> for \<^verbatim>\<open>max_workers <= 0\<close>.\<close>

definition prepare ::
  "(Identifier \<times> addr) list \<Rightarrow> int \<Rightarrow> DiGraphEx \<Rightarrow> (Identifier \<times> addr) list option \<Rightarrow> world
     \<Rightarrow> error + world \<times> sched" where
  "prepare node_dict max_concurrency g modified_node_dict w =
     (let (h, d) = (case modified_node_dict of
                      None \<Rightarrow> copy_non_setup_xns (heap w) node_dict
                    | Some m \<Rightarrow> if m \<noteq> [] then (heap w, m)
                               else copy_non_setup_xns (heap w) node_dict)
      in case precomputed h d (nodes g) of
           Inl err \<Rightarrow> Inl err
         | Inr precomputed_xns_ids \<Rightarrow>
             (case remove_nodes g precomputed_xns_ids of
                Inl err \<Rightarrow> Inl err
              | Inr g' \<Rightarrow>
                  if max_concurrency \<le> 0 then Inl ValueError
                  else Inr (w\<lparr>heap := h\<rparr>,
                            \<lparr>xns_dict = d, graph = g', futures = [], done_futs = [],
                             running = [], futures_launch_time = [],
                             runnable_xns_ids = root_nodes g'\<rparr>)))"

text \<open>\<^verbatim>\<open>execute\<close>: the returned \<^verbatim>\<open>xns_dict\<close>, with the store its entries point into.\<close>

definition execute ::
  "(Identifier \<times> addr) list \<Rightarrow> int \<Rightarrow> ErrorStrategy \<Rightarrow> DiGraphEx
     \<Rightarrow> (Identifier \<times> addr) list option \<Rightarrow> env list \<Rightarrow> world
     \<Rightarrow> (error + ExecNode list \<times> (Identifier \<times> addr) list) option" where
  "execute node_dict max_concurrency behavior g modified_node_dict es w =
     (case prepare node_dict max_concurrency g modified_node_dict w of
        Inl err \<Rightarrow> Some (Inl err)
      | Inr (w0, s0) \<Rightarrow>
          (case while_graph max_concurrency behavior es w0 s0 of
             None \<Rightarrow> None
           | Some (Inl err) \<Rightarrow> Some (Inl err)
           | Some (Inr (w', s')) \<Rightarrow> Some (Inr (heap w', xns_dict s'))))"

text \<open>The states in which the loop of a run that started in \<open>(w0, s0)\<close> evaluates its
  condition, whatever the workers do.\<close>

inductive reachable ::
  "int \<Rightarrow> ErrorStrategy \<Rightarrow> world \<Rightarrow> sched \<Rightarrow> world \<Rightarrow> sched \<Rightarrow> bool"
  for max_concurrency behavior w0 s0 where
  start: "reachable max_concurrency behavior w0 s0 w0 s0"
| iteration:
    "reachable max_concurrency behavior w0 s0 w s \<Longrightarrow> len (graph s) \<noteq> 0 \<Longrightarrow>
     loop_body max_concurrency behavior e w s = Some (Inr (w', s')) \<Longrightarrow>
     reachable max_concurrency behavior w0 s0 w' s'"

section \<open>Notions used in the statements\<close>

text \<open>The deadline a submitted node contributes to the next timeout: none when its future
  is done or it has no configured timeout, else its launch time plus its timeout.\<close>

definition candidate ::
  "world \<Rightarrow> (Identifier \<times> real) list \<Rightarrow> (Identifier \<times> addr) list \<Rightarrow> Identifier \<times> Future \<Rightarrow> real option" where
  "candidate w flt d kv =
     (if fut_done (pool w) (snd kv) then None
      else (case map_of flt (fst kv) of
              None \<Rightarrow> None
            | Some launch_time \<Rightarrow>
                (case map_of d (fst kv) of
                   None \<Rightarrow> None
                 | Some a \<Rightarrow> map_option (\<lambda>t. launch_time + t) (timeout (heap w ! a)))))"

definition candidate_deadlines ::
  "world \<Rightarrow> (Identifier \<times> real) list \<Rightarrow> (Identifier \<times> Future) list \<Rightarrow> (Identifier \<times> addr) list \<Rightarrow> real list" where
  "candidate_deadlines w flt futs d = List.map_filter (candidate w flt d) futs"

text \<open>What the workers and the coordinator never undo: a future that is done stays done with
  its outcome, futures are only added, and no attribute of a node but its result changes.\<close>

definition evolves :: "world \<Rightarrow> world \<Rightarrow> bool" where
  "evolves w w' \<longleftrightarrow>
     length (pool w) \<le> length (pool w') \<and>
     (\<forall>f r. fut_outcome (pool w) f = Some r \<longrightarrow> fut_outcome (pool w') f = Some r) \<and>
     (\<forall>a. (heap w' ! a)\<lparr>result := NoVal\<rparr> = (heap w ! a)\<lparr>result := NoVal\<rparr>)"

text \<open>A set \<open>P\<close> of deleted nodes is justified when every edge that leaves it ends in it,
  unless the source of the edge is excused (\<open>pre\<close>) or has a done future.\<close>

definition justified ::
  "(Identifier \<Rightarrow> bool) \<Rightarrow> task list \<Rightarrow> (Identifier \<times> Future) list \<Rightarrow> DiGraphEx
     \<Rightarrow> (Identifier \<Rightarrow> bool) \<Rightarrow> bool" where
  "justified pre p futs g P \<longleftrightarrow>
     (\<forall>e \<in> set (edges g). P (fst e) \<longrightarrow>
        P (snd e) \<or> pre (fst e) \<or> (\<exists>f. (fst e, f) \<in> set futs \<and> fut_done p f))"

text \<open>The invariant of the loop: the working graph is the graph given to \<^verbatim>\<open>execute\<close> without
  a justified set of nodes, the state table is keyed by the ids of its nodes, and no edge
  of the working graph ends in a submitted node.\<close>

definition sched_inv :: "(Identifier \<Rightarrow> bool) \<Rightarrow> DiGraphEx \<Rightarrow> world \<Rightarrow> sched \<Rightarrow> bool" where
  "sched_inv pre g0 w s \<longleftrightarrow>
     (\<exists>P. graph s = delete_nodes P g0 \<and> justified pre (pool w) (futures s) g0 P) \<and>
     (\<forall>kv \<in> set (xns_dict s). xn_id (heap w ! snd kv) = fst kv) \<and>
     fst ` set (futures s) \<inter> snd ` set (edges (graph s)) = {}"

section \<open>Example runs\<close>

text \<open>A node with default attributes, an event in which nothing happens, an iteration in
  which the workers do nothing, and the local variables at the start of the loop.\<close>

definition plain_node :: "Identifier \<Rightarrow> int \<Rightarrow> bool \<Rightarrow> real option \<Rightarrow> ExecNode" where
  "plain_node i p sq t =
     \<lparr>xn_id = i, priority = p, compound_priority = p, is_sequential = sq, timeout = t,
      xn_setup = False, active = ActiveBool True, executed = False, result = NoVal\<rparr>"

definition quiet :: event where
  "quiet = \<lparr>completes = [], elapsed = 0\<rparr>"

definition calm :: env where
  "calm = \<lparr>ev_top = quiet, ev_wait1 = quiet, ev_reap = quiet, ev_pick = quiet,
            ev_wait2 = quiet, ev_wait3 = quiet\<rparr>"

definition entry_sched :: "(Identifier \<times> addr) list \<Rightarrow> DiGraphEx \<Rightarrow> sched" where
  "entry_sched d g =
     \<lparr>xns_dict = d, graph = g, futures = [], done_futs = [], running = [],
      futures_launch_time = [], runnable_xns_ids = root_nodes g\<rparr>"

text \<open>The graph \<open>a \<rightarrow> b\<close> in which \<open>a\<close> is executed on entry.\<close>

definition ab_dict :: "(Identifier \<times> addr) list" where
  "ab_dict = [(''a'', 0), (''b'', 1)]"

definition ab_graph :: DiGraphEx where
  "ab_graph = \<lparr>nodes = [''a'', ''b''], edges = [(''a'', ''b'')]\<rparr>"

definition ab_world :: world where
  "ab_world = \<lparr>heap = [(plain_node ''a'' 0 False None)\<lparr>executed := True, result := PyInt 1\<rparr>,
                       plain_node ''b'' 0 False None],
               pool = [], clock = 0\<rparr>"

definition ab_entry :: sched where
  "ab_entry = entry_sched ab_dict \<lparr>nodes = [''b''], edges = []\<rparr>"

text \<open>Four submitted nodes at clock 1: \<open>a\<close> (launched at 1/2, timeout 2), \<open>b\<close> (launched at 0,
  timeout 5), \<open>c\<close> (no timeout), and \<open>d\<close> (timeout 1/2, already done).\<close>

definition clock_world :: world where
  "clock_world =
     \<lparr>heap = [plain_node ''a'' 0 False (Some 2), plain_node ''b'' 0 False (Some 5),
              plain_node ''c'' 0 False None, plain_node ''d'' 0 False (Some (1/2))],
      pool = [\<lparr>task_xn = 0, task_outcome = None\<rparr>, \<lparr>task_xn = 1, task_outcome = None\<rparr>,
              \<lparr>task_xn = 2, task_outcome = None\<rparr>,
              \<lparr>task_xn = 3, task_outcome = Some (Inr PyNone)\<rparr>],
      clock = 1\<rparr>"

definition clock_dict :: "(Identifier \<times> addr) list" where
  "clock_dict = [(''a'', 0), (''b'', 1), (''c'', 2), (''d'', 3)]"

definition clock_futures :: "(Identifier \<times> Future) list" where
  "clock_futures = [(''a'', 0), (''b'', 1), (''c'', 2), (''d'', 3)]"

definition clock_launch :: "(Identifier \<times> real) list" where
  "clock_launch = [(''a'', 1/2), (''b'', 0), (''c'', 0), (''d'', 0)]"



















text \<open>Three independent nodes, run with \<^verbatim>\<open>max_concurrency = 2\<close>: \<open>a\<close> (priority 3), the
  sequential node \<open>b\<close> (priority 2, timeout of one second) and \<open>c\<close> (priority 1). In the
  first iteration \<open>a\<close> is submitted. In the second, \<open>a\<close> finishes and is reaped, \<open>b\<close> is
  submitted, and one second passes during the wait of line 251 without \<open>b\<close> finishing.\<close>

definition seq_dict :: "(Identifier \<times> addr) list" where
  "seq_dict = [(''a'', 0), (''b'', 1), (''c'', 2)]"

definition seq_graph :: DiGraphEx where
  "seq_graph = \<lparr>nodes = [''a'', ''b'', ''c''], edges = []\<rparr>"

definition seq_world0 :: world where
  "seq_world0 = \<lparr>heap = [plain_node ''a'' 3 False None, plain_node ''b'' 2 True (Some 1),
                         plain_node ''c'' 1 False None],
                 pool = [], clock = 0\<rparr>"

definition seq_sched0 :: sched where
  "seq_sched0 = entry_sched seq_dict seq_graph"

definition seq_env :: env where
  "seq_env = calm\<lparr>ev_reap := \<lparr>completes = [(0, Inr (PyInt 7))], elapsed = 0\<rparr>,
                   ev_wait3 := \<lparr>completes = [], elapsed = 1\<rparr>\<rparr>"

definition seq_world1 :: world where
  "seq_world1 = seq_world0\<lparr>pool := [\<lparr>task_xn = 0, task_outcome = None\<rparr>]\<rparr>"

definition seq_sched1 :: sched where
  "seq_sched1 = seq_sched0\<lparr>futures := [(''a'', 0)], running := [0],
                            futures_launch_time := [(''a'', 0)]\<rparr>"

text \<open>The second iteration at line 237, after line 240, and at its end.\<close>

definition seq_world_picked :: world where
  "seq_world_picked =
     \<lparr>heap = [(plain_node ''a'' 3 False None)\<lparr>result := PyInt 7\<rparr>,
              plain_node ''b'' 2 True (Some 1), plain_node ''c'' 1 False None],
      pool = [\<lparr>task_xn = 0, task_outcome = Some (Inr (PyInt 7))\<rparr>], clock = 0\<rparr>"

definition seq_sched_picked :: sched where
  "seq_sched_picked = seq_sched1\<lparr>graph := \<lparr>nodes = [''b'', ''c''], edges = []\<rparr>,
                                  runnable_xns_ids := [''b'', ''c'']\<rparr>"

definition seq_world_submitted :: world where
  "seq_world_submitted =
     seq_world_picked\<lparr>pool := pool seq_world_picked @ [\<lparr>task_xn = 1, task_outcome = None\<rparr>]\<rparr>"

definition seq_sched_submitted :: sched where
  "seq_sched_submitted =
     seq_sched_picked\<lparr>futures := [(''a'', 0), (''b'', 1)], running := [1, 0],
                       futures_launch_time := [(''a'', 0), (''b'', 0)]\<rparr>"

definition seq_world2 :: world where
  "seq_world2 = seq_world_submitted\<lparr>clock := 1\<rparr>"

definition seq_sched2 :: sched where
  "seq_sched2 = seq_sched_submitted\<lparr>running := [1]\<rparr>"

text \<open>The graph \<open>a \<rightarrow> b\<close>, \<open>a \<rightarrow> c\<close>, \<open>b \<rightarrow> c\<close>, in which the run of \<open>a\<close> raises.\<close>

definition dia_dict :: "(Identifier \<times> addr) list" where
  "dia_dict = [(''a'', 0), (''b'', 1), (''c'', 2)]"

definition dia_graph :: DiGraphEx where
  "dia_graph = \<lparr>nodes = [''a'', ''b'', ''c''],
                edges = [(''a'', ''b''), (''a'', ''c''), (''b'', ''c'')]\<rparr>"

definition dia_world :: world where
  "dia_world = \<lparr>heap = [plain_node ''a'' 0 False None, plain_node ''b'' 0 False None,
                        plain_node ''c'' 0 False None],
                pool = [], clock = 0\<rparr>"

definition dia_env :: env where
  "dia_env = calm\<lparr>ev_top := \<lparr>completes = [(0, Inl ''boom'')], elapsed = 1\<rparr>\<rparr>"

text \<open>The node \<open>g\<close>, executed on entry with the result \<^verbatim>\<open>False\<close>, controls \<open>x\<close>; \<open>y\<close> depends on
  \<open>x\<close>, and \<open>z\<close> is independent.\<close>

definition cond_dict :: "(Identifier \<times> addr) list" where
  "cond_dict = [(''g'', 0), (''x'', 1), (''y'', 2), (''z'', 3)]"

definition cond_graph :: DiGraphEx where
  "cond_graph = \<lparr>nodes = [''g'', ''x'', ''y'', ''z''], edges = [(''g'', ''x''), (''x'', ''y'')]\<rparr>"

definition cond_world :: world where
  "cond_world =
     \<lparr>heap = [(plain_node ''g'' 0 False None)\<lparr>executed := True, result := PyBool False\<rparr>,
              (plain_node ''x'' 5 False None)\<lparr>active := ActiveRef ''g''\<rparr>,
              plain_node ''y'' 0 False None, plain_node ''z'' 0 False None],
      pool = [], clock = 0\<rparr>"

definition cond_entry :: sched where
  "cond_entry = entry_sched cond_dict \<lparr>nodes = [''x'', ''y'', ''z''], edges = [(''x'', ''y'')]\<rparr>"

section \<open>Properties\<close>

subsection \<open>The next timeout\<close>

lemma foldl_fmin_Finite: "foldl fmin (Finite a) xs = Finite (Min (insert a (set xs)))"
proof (induction xs arbitrary: a)
  case Nil
  then show ?case by simp
next
  case (Cons x xs)
  have "Min (insert (min a x) (set xs)) = Min (insert a (insert x (set xs)))"
    by (cases "set xs = {}") (simp_all add: min.assoc)
  with Cons show ?case by simp
qed

lemma foldl_fmin_Infinity:
  "foldl fmin Infinity xs = (if xs = [] then Infinity else Finite (Min (set xs)))"
  by (cases xs) (simp_all add: foldl_fmin_Finite)

lemma next_timeout_loop_foldl:
  assumes "\<forall>kv \<in> set futs. \<not> fut_done (pool w) (snd kv) \<longrightarrow>
             fst kv \<in> fst ` set flt \<and> fst kv \<in> fst ` set d"
  shows "next_timeout_loop w flt d futs acc = Inr (foldl fmin acc (candidate_deadlines w flt futs d))"
  using assms
proof (induction futs arbitrary: acc)
  case Nil
  then show ?case by (simp add: candidate_deadlines_def map_filter_simps)
next
  case (Cons kv futs)
  obtain i f where kv: "kv = (i, f)" by (cases kv)
  show ?case
  proof (cases "fut_done (pool w) f")
    case True
    with Cons kv show ?thesis
      by (simp add: candidate_deadlines_def map_filter_simps candidate_def)
  next
    case False
    from False Cons.prems kv have "i \<in> fst ` set flt" and "i \<in> fst ` set d" by auto
    then have "map_of flt i \<noteq> None" and "map_of d i \<noteq> None"
      by (simp_all add: map_of_eq_None_iff)
    then obtain lt a where lt: "map_of flt i = Some lt" and a: "map_of d i = Some a"
      by auto
    from Cons.prems have rest: "\<forall>kv \<in> set futs. \<not> fut_done (pool w) (snd kv) \<longrightarrow>
             fst kv \<in> fst ` set flt \<and> fst kv \<in> fst ` set d" by simp
    show ?thesis
      using False kv lt a Cons.IH [OF rest]
      by (cases "timeout (heap w ! a)")
         (simp_all add: candidate_deadlines_def map_filter_simps candidate_def getitem_def)
  qed
qed

text \<open>
  Claim C4. \<^verbatim>\<open>get_next_timeout\<close> returns \<^verbatim>\<open>None\<close> iff no submitted node whose future is not
  done has a configured timeout; otherwise it returns the minimum, over the submitted
  nodes whose future is not done and that have a configured timeout, of launch time plus
  timeout, minus the reading of the monotonic clock. (Every key of the futures table that
  is looked up is a key of the launch times and of the state table, as in \<^verbatim>\<open>execute\<close>;
  a missing key is a \<^verbatim>\<open>KeyError\<close>.)
\<close>

theorem get_next_timeout_minimum:
  assumes "\<forall>kv \<in> set futs. \<not> fut_done (pool w) (snd kv) \<longrightarrow>
             fst kv \<in> fst ` set flt \<and> fst kv \<in> fst ` set d"
  shows "get_next_timeout w flt futs d =
           Inr (if candidate_deadlines w flt futs d = [] then None
                else Some (Min (set (candidate_deadlines w flt futs d)) - clock w))"
  by (simp add: get_next_timeout_def next_timeout_loop_foldl [OF assms] foldl_fmin_Infinity)

subsection \<open>What the workers cannot change\<close>

lemma evolves_refl: "evolves w w"
  by (simp add: evolves_def)

lemma evolves_trans: "evolves w1 w2 \<Longrightarrow> evolves w2 w3 \<Longrightarrow> evolves w1 w3"
  unfolding evolves_def by (metis (no_types, lifting) le_trans)

lemma evolves_complete: "evolves w (complete c w)"
proof (cases "fst c < length (pool w) \<and> task_outcome (pool w ! fst c) = None")
  case False
  then have "complete c w = w" unfolding complete_def by (rule if_not_P)
  then show ?thesis by (simp add: evolves_refl)
next
  case True
  have heap: "(heap (complete c w) ! a)\<lparr>result := NoVal\<rparr> = (heap w ! a)\<lparr>result := NoVal\<rparr>" for a
  proof (cases "snd c")
    case (Inl x)
    with True show ?thesis by (simp add: complete_def)
  next
    case (Inr v)
    show ?thesis
    proof (cases "task_xn (pool w ! fst c) < length (heap w)")
      case t: True
      with True Inr show ?thesis by (simp add: complete_def nth_list_update)
    next
      case f: False
      then have "(heap w)[task_xn (pool w ! fst c) := x] = heap w" for x
        by (simp add: list_update_beyond)
      with True Inr show ?thesis by (simp add: complete_def)
    qed
  qed
  have out: "fut_outcome (pool (complete c w)) f = Some r" if "fut_outcome (pool w) f = Some r" for f r
    using that True by (auto simp: complete_def fut_outcome_def nth_list_update split: if_splits)
  from True heap out show ?thesis by (simp add: evolves_def complete_def)
qed

lemma evolves_fold_complete: "evolves w (fold complete cs w)"
proof (induction cs arbitrary: w)
  case Nil
  show ?case by (simp add: evolves_refl)
next
  case (Cons c cs)
  show ?case using evolves_trans [OF evolves_complete Cons.IH] by simp
qed

lemma evolves_happen: "evolves w (happen ev w)"
  using evolves_fold_complete [of w "completes ev"] by (simp add: happen_def evolves_def)

lemma evolves_done: "evolves w w' \<Longrightarrow> fut_done (pool w) f \<Longrightarrow> fut_done (pool w') f"
  by (auto simp: evolves_def fut_done_def)

lemma evolves_static:
  assumes "evolves w w'"
  shows "xn_id (heap w' ! a) = xn_id (heap w ! a)"
    and "priority (heap w' ! a) = priority (heap w ! a)"
    and "compound_priority (heap w' ! a) = compound_priority (heap w ! a)"
    and "is_sequential (heap w' ! a) = is_sequential (heap w ! a)"
    and "timeout (heap w' ! a) = timeout (heap w ! a)"
    and "active (heap w' ! a) = active (heap w ! a)"
proof -
  from assms have eq: "(heap w' ! a)\<lparr>result := NoVal\<rparr> = (heap w ! a)\<lparr>result := NoVal\<rparr>"
    by (simp add: evolves_def)
  show "xn_id (heap w' ! a) = xn_id (heap w ! a)"
    using arg_cong [OF eq, of xn_id] by simp
  show "priority (heap w' ! a) = priority (heap w ! a)"
    using arg_cong [OF eq, of priority] by simp
  show "compound_priority (heap w' ! a) = compound_priority (heap w ! a)"
    using arg_cong [OF eq, of compound_priority] by simp
  show "is_sequential (heap w' ! a) = is_sequential (heap w ! a)"
    using arg_cong [OF eq, of is_sequential] by simp
  show "timeout (heap w' ! a) = timeout (heap w ! a)"
    using arg_cong [OF eq, of timeout] by simp
  show "active (heap w' ! a) = active (heap w ! a)"
    using arg_cong [OF eq, of active] by simp
qed

lemma wait_world: "wait fs rw tmo ev w = Some (d, r, w') \<Longrightarrow> w' = happen ev w"
  by (auto simp: wait_def Let_def split: if_splits)

lemma timed_wait_world: "timed_wait fs rw ev w s = Some (Inr (d, r, w')) \<Longrightarrow> w' = happen ev w"
  by (auto simp: timed_wait_def dest: wait_world split: sum.splits option.splits)

subsection \<open>Deleting nodes\<close>

lemma delete_nodes_twice:
  "delete_nodes Q (delete_nodes P g) = delete_nodes (\<lambda>n. P n \<or> Q n) g"
  by (auto simp: delete_nodes_def intro: filter_cong)

lemma delete_nodes_none: "delete_nodes (\<lambda>n. False) g = g"
  by (simp add: delete_nodes_def)

lemma justified_twice:
  assumes "justified pre p futs g P" and "justified (\<lambda>n. False) p futs (delete_nodes P g) Q"
  shows "justified pre p futs g (\<lambda>n. P n \<or> Q n)"
  using assms unfolding justified_def delete_nodes_def by fastforce

lemma remove_node_delete:
  "remove_node g i = Inr g' \<Longrightarrow> g' = delete_nodes (\<lambda>n. n = i) g"
  by (auto simp: remove_node_def split: if_splits)

lemma remove_recursively_delete:
  assumes "remove_recursively g i = Inr g'"
  shows "\<exists>Q. g' = delete_nodes Q g \<and> justified (\<lambda>n. False) p futs g Q"
proof -
  let ?Q = "\<lambda>n. n = i \<or> (i, n) \<in> (set (edges g))\<^sup>+"
  from assms have "g' = delete_nodes ?Q g"
    by (auto simp: remove_recursively_def split: if_splits)
  moreover have "justified (\<lambda>n. False) p futs g ?Q"
    unfolding justified_def by (auto intro: trancl_into_trancl)
  ultimately show ?thesis by blast
qed

lemma remove_children_delete:
  "remove_children g cs = Inr g' \<Longrightarrow> \<exists>Q. g' = delete_nodes Q g \<and> justified (\<lambda>n. False) p futs g Q"
proof (induction cs arbitrary: g)
  case Nil
  then show ?case
    by (auto simp: justified_def intro!: exI [of _ "\<lambda>n. False"] delete_nodes_none [symmetric])
next
  case (Cons c cs)
  from Cons.prems obtain g1 where g1: "remove_recursively g c = Inr g1"
    and rest: "remove_children g1 cs = Inr g'"
    by (auto split: sum.splits)
  from remove_recursively_delete [OF g1] obtain P where
    P: "g1 = delete_nodes P g" "justified (\<lambda>n. False) p futs g P" by blast
  from Cons.IH [OF rest] obtain Q where
    Q: "g' = delete_nodes Q g1" "justified (\<lambda>n. False) p futs g1 Q" by blast
  from P Q have "g' = delete_nodes (\<lambda>n. P n \<or> Q n) g" by (simp add: delete_nodes_twice)
  moreover from P Q have "justified (\<lambda>n. False) p futs g (\<lambda>n. P n \<or> Q n)"
    by (auto intro: justified_twice)
  ultimately show ?case by blast
qed

lemma handle_exception_delete:
  "handle_exception b g r i = Inr g' \<Longrightarrow> \<exists>Q. g' = delete_nodes Q g \<and> justified (\<lambda>n. False) p futs g Q"
proof -
  assume h: "handle_exception b g r i = Inr g'"
  have same: "\<exists>Q. g = delete_nodes Q g \<and> justified (\<lambda>n. False) p futs g Q"
    by (auto simp: justified_def intro!: exI [of _ "\<lambda>n. False"] delete_nodes_none [symmetric])
  from h have "g' = g \<or> remove_children g (successors g i) = Inr g'"
    by (auto simp: handle_exception_def split: if_splits sum.splits)
  then show ?thesis using same remove_children_delete by blast
qed

lemma reap_delete:
  "set futs \<subseteq> set F \<Longrightarrow> reap b p futs g = Inr g' \<Longrightarrow>
   \<exists>Q. g' = delete_nodes Q g \<and> justified (\<lambda>n. False) p F g Q"
proof (induction futs arbitrary: g)
  case Nil
  then show ?case
    by (auto simp: justified_def intro!: exI [of _ "\<lambda>n. False"] delete_nodes_none [symmetric])
next
  case (Cons kv futs)
  obtain i f where kv: "kv = (i, f)" by (cases kv)
  from Cons.prems have sub: "set futs \<subseteq> set F" and mem: "(i, f) \<in> set F" using kv by auto
  show ?case
  proof (cases "fut_outcome p f")
    case None
    with Cons.prems kv have "reap b p futs g = Inr g'" by simp
    from Cons.IH [OF sub this] show ?thesis .
  next
    case (Some r)
    show ?thesis
    proof (cases "i \<in> set (nodes g)")
      case False
      with Some Cons.prems kv have "reap b p futs g = Inr g'" by simp
      from Cons.IH [OF sub this] show ?thesis .
    next
      case True
      with Some Cons.prems kv obtain g1 g2 where
        g1: "handle_exception b g r i = Inr g1" and g2: "remove_node g1 i = Inr g2"
        and rest: "reap b p futs g2 = Inr g'"
        by (auto split: sum.splits)
      from handle_exception_delete [OF g1] obtain P1 where
        P1: "g1 = delete_nodes P1 g" "justified (\<lambda>n. False) p F g P1" by blast
      have d: "fut_done p f" using Some by (simp add: fut_done_def)
      have P2: "g2 = delete_nodes (\<lambda>n. n = i) g1" using remove_node_delete [OF g2] .
      have j2: "justified (\<lambda>n. False) p F g1 (\<lambda>n. n = i)"
        unfolding justified_def using mem d by auto
      from Cons.IH [OF sub rest] obtain P3 where
        P3: "g' = delete_nodes P3 g2" "justified (\<lambda>n. False) p F g2 P3" by blast
      have j12: "justified (\<lambda>n. False) p F g (\<lambda>n. P1 n \<or> n = i)"
        using justified_twice [OF P1(2)] j2 P1(1) by simp
      have g2': "g2 = delete_nodes (\<lambda>n. P1 n \<or> n = i) g"
        using P1(1) P2 by (simp add: delete_nodes_twice)
      have "justified (\<lambda>n. False) p F g (\<lambda>n. (P1 n \<or> n = i) \<or> P3 n)"
        using justified_twice [OF j12] P3(2) g2' by simp
      moreover have "g' = delete_nodes (\<lambda>n. (P1 n \<or> n = i) \<or> P3 n) g"
        using P3(1) g2' by (simp add: delete_nodes_twice)
      ultimately show ?thesis by blast
    qed
  qed
qed

subsection \<open>The invariant of the loop\<close>

lemma justified_mono:
  assumes "justified pre p futs g P"
    and "\<And>f. fut_done p f \<Longrightarrow> fut_done p' f"
    and "set futs \<subseteq> set futs'"
  shows "justified pre p' futs' g P"
  using assms unfolding justified_def by blast

lemma sched_inv_evolves:
  assumes "sched_inv pre g0 w s" and "evolves w w'"
    and "graph s' = graph s" and "futures s' = futures s" and "xns_dict s' = xns_dict s"
  shows "sched_inv pre g0 w' s'"
proof -
  from assms(1) obtain P where P: "graph s = delete_nodes P g0"
    "justified pre (pool w) (futures s) g0 P"
    and ids: "\<forall>kv \<in> set (xns_dict s). xn_id (heap w ! snd kv) = fst kv"
    and roots: "fst ` set (futures s) \<inter> snd ` set (edges (graph s)) = {}"
    by (auto simp: sched_inv_def)
  have "justified pre (pool w') (futures s) g0 P"
    using P(2) evolves_done [OF assms(2)] by (rule justified_mono) auto
  moreover have "\<forall>kv \<in> set (xns_dict s). xn_id (heap w' ! snd kv) = fst kv"
    using ids by (simp add: evolves_static(1) [OF assms(2)])
  ultimately show ?thesis using P(1) roots assms(3-5) by (auto simp: sched_inv_def)
qed

lemma sched_inv_delete:
  assumes "sched_inv pre g0 w s"
    and "graph s' = delete_nodes Q (graph s)"
    and "justified (\<lambda>n. False) (pool w) (futures s) (graph s) Q"
    and "futures s' = futures s" and "xns_dict s' = xns_dict s"
  shows "sched_inv pre g0 w s'"
proof -
  from assms(1) obtain P where P: "graph s = delete_nodes P g0"
    "justified pre (pool w) (futures s) g0 P"
    and ids: "\<forall>kv \<in> set (xns_dict s). xn_id (heap w ! snd kv) = fst kv"
    and roots: "fst ` set (futures s) \<inter> snd ` set (edges (graph s)) = {}"
    by (auto simp: sched_inv_def)
  have g: "graph s' = delete_nodes (\<lambda>n. P n \<or> Q n) g0"
    using assms(2) P(1) by (simp add: delete_nodes_twice)
  have j: "justified pre (pool w) (futures s') g0 (\<lambda>n. P n \<or> Q n)"
    using justified_twice [OF P(2)] assms(3) P(1) assms(4) by simp
  have "set (edges (graph s')) \<subseteq> set (edges (graph s))"
    using assms(2) by (auto simp: delete_nodes_def)
  with roots assms(4) have "fst ` set (futures s') \<inter> snd ` set (edges (graph s')) = {}"
    by auto
  with g j ids assms(5) show ?thesis by (auto simp: sched_inv_def)
qed

lemma block_if_needed_effect:
  assumes "block_if_needed mc e w s = Some (Inr (w1, s1))"
  shows "evolves w w1 \<and> graph s1 = graph s \<and> futures s1 = futures s \<and> xns_dict s1 = xns_dict s"
proof (cases "int (get_num_running_threads (pool (happen (ev_top e) w)) (futures s)) = mc
               \<or> length (runnable_xns_ids s) = 0")
  case False
  with assms have "w1 = happen (ev_top e) w" and "s1 = s"
    by (auto simp: block_if_needed_def Let_def)
  then show ?thesis by (simp add: evolves_happen)
next
  case True
  with assms obtain d r where
    tw: "timed_wait (running s) FIRST_COMPLETED (ev_wait1 e) (happen (ev_top e) w) s = Some (Inr (d, r, w1))"
    and s1: "s1 = s\<lparr>running := r, done_futs := List.union (done_futs s) d\<rparr>"
    by (auto simp: block_if_needed_def Let_def split: option.splits sum.splits)
  from timed_wait_world [OF tw] have "w1 = happen (ev_wait1 e) (happen (ev_top e) w)" .
  then have "evolves w w1" using evolves_trans [OF evolves_happen evolves_happen] by simp
  with s1 show ?thesis by simp
qed

lemma pick_node_effect:
  assumes "pick_node mc b e w s = Some (Inr (r, w2, s2))"
  shows "evolves w w2" and "futures s2 = futures s" and "xns_dict s2 = xns_dict s"
    and "reap b (pool w2) (futures s) (graph s) = Inr (graph s2)"
    and "runnable_xns_ids s2 = ready_ids (graph s2) (futures s2)"
    and "r = None \<longrightarrow> runnable_xns_ids s2 = []"
    and "\<forall>xn. r = Some xn \<longrightarrow> choose_node (heap w2) (xns_dict s2) (runnable_xns_ids s2) = Inr xn"
proof -
  from assms obtain w1 s1 where b: "block_if_needed mc e w s = Some (Inr (w1, s1))"
    by (auto simp: pick_node_def split: option.splits sum.splits)
  note eff = block_if_needed_effect [OF b]
  let ?w2 = "happen (ev_reap e) w1"
  from assms b obtain g where g: "reap b (pool ?w2) (futures s1) (graph s1) = Inr g"
    by (auto simp: pick_node_def Let_def split: sum.splits)
  let ?s2 = "s1\<lparr>graph := g, runnable_xns_ids := ready_ids g (futures s1)\<rparr>"
  from assms b g have res: "w2 = ?w2" "s2 = ?s2"
    by (auto simp: pick_node_def Let_def split: sum.splits if_splits)
  show "evolves w w2" using eff res evolves_trans [OF _ evolves_happen] by blast
  show "futures s2 = futures s" using eff res by simp
  show "xns_dict s2 = xns_dict s" using eff res by simp
  show "reap b (pool w2) (futures s) (graph s) = Inr (graph s2)" using eff res g by simp
  show "runnable_xns_ids s2 = ready_ids (graph s2) (futures s2)" using res by simp
  show "r = None \<longrightarrow> runnable_xns_ids s2 = []"
    using assms b g res by (auto simp: pick_node_def Let_def split: sum.splits if_splits)
  show "\<forall>xn. r = Some xn \<longrightarrow> choose_node (heap w2) (xns_dict s2) (runnable_xns_ids s2) = Inr xn"
    using assms b g res by (auto simp: pick_node_def Let_def split: sum.splits if_splits)
qed

lemma pick_node_inv:
  assumes "sched_inv pre g0 w s" and "pick_node mc b e w s = Some (Inr (r, w2, s2))"
  shows "sched_inv pre g0 w2 s2"
proof -
  note eff = pick_node_effect [OF assms(2)]
  let ?s = "s\<lparr>runnable_xns_ids := runnable_xns_ids s2\<rparr>"
  have 1: "sched_inv pre g0 w2 ?s"
    using assms(1) eff(1) by (rule sched_inv_evolves) simp_all
  from reap_delete [OF subset_refl eff(4)] obtain Q where
    Q: "graph s2 = delete_nodes Q (graph s)" "justified (\<lambda>n. False) (pool w2) (futures s) (graph s) Q"
    by blast
  show ?thesis
    using 1 by (rule sched_inv_delete [where Q = Q]) (use Q eff in simp_all)
qed

subsection \<open>The choice of the node\<close>

lemma lookup_all_map_of:
  "lookup_all d ids = Inr as \<Longrightarrow> list_all2 (\<lambda>n a. map_of d n = Some a) ids as"
proof (induction ids arbitrary: as)
  case Nil
  then show ?case by simp
next
  case (Cons n ids)
  then show ?case
    by (auto simp: getitem_def split: sum.splits option.splits)
qed

lemma get_highest_priority_nodes_max:
  assumes "get_highest_priority_nodes h nds = Inr hp"
  shows "hp \<noteq> []" and "set hp \<subseteq> set nds"
    and "\<forall>a \<in> set nds. \<forall>x \<in> set hp. priority (h ! a) \<le> priority (h ! x)"
proof -
  from assms have ne: "nds \<noteq> []"
    by (auto simp: get_highest_priority_nodes_def split: if_splits)
  let ?m = "Max (set (map (\<lambda>a. priority (h ! a)) nds))"
  from assms ne have hp: "hp = filter (\<lambda>a. priority (h ! a) = ?m) nds"
    by (simp add: get_highest_priority_nodes_def Let_def)
  have "?m \<in> set (map (\<lambda>a. priority (h ! a)) nds)"
    using ne by (intro Max_in) auto
  then show "hp \<noteq> []" using hp by (auto simp: filter_empty_conv)
  show "set hp \<subseteq> set nds" using hp by auto
  have "priority (h ! a) \<le> ?m" if "a \<in> set nds" for a
    using that by (intro Max_ge) auto
  then show "\<forall>a \<in> set nds. \<forall>x \<in> set hp. priority (h ! a) \<le> priority (h ! x)"
    using hp by auto
qed

lemma sorted_le_last: "sorted ys \<Longrightarrow> y \<in> set ys \<Longrightarrow> (y::'a::linorder) \<le> last ys"
  by (induction ys) auto

lemma last_sort_key_max:
  assumes "xs \<noteq> []"
  shows "last (sort_key k xs) \<in> set xs" and "\<forall>x \<in> set xs. k x \<le> k (last (sort_key k xs))"
proof -
  let ?ys = "sort_key k xs"
  have ne: "?ys \<noteq> []" using assms by (metis length_sort list.size(3) length_0_conv)
  have "last ?ys \<in> set ?ys" using ne by (rule last_in_set)
  then show "last ?ys \<in> set xs" by simp
  have s: "sorted (map k ?ys)" by (rule sorted_sort_key)
  have "k x \<le> k (last ?ys)" if "x \<in> set xs" for x
  proof -
    from that have "k x \<in> set (map k ?ys)" by auto
    with s have "k x \<le> last (map k ?ys)" by (rule sorted_le_last)
    then show ?thesis using ne by (simp add: last_map)
  qed
  then show "\<forall>x \<in> set xs. k x \<le> k (last ?ys)" by blast
qed

lemma choose_node_max:
  assumes "choose_node h d ids = Inr xn"
  shows "\<exists>n \<in> set ids. map_of d n = Some xn"
    and "\<forall>n \<in> set ids. \<forall>a. map_of d n = Some a \<longrightarrow>
           priority (h ! a) \<le> priority (h ! xn) \<and>
           (priority (h ! a) = priority (h ! xn) \<longrightarrow>
              compound_priority (h ! a) \<le> compound_priority (h ! xn))"
proof -
  from assms obtain as hp where as: "lookup_all d ids = Inr as"
    and hp: "get_highest_priority_nodes h as = Inr hp"
    and xn: "xn = last (sort_key (\<lambda>a. compound_priority (h ! a)) hp)"
    by (auto simp: choose_node_def split: sum.splits)
  note l2 = lookup_all_map_of [OF as]
  note m = get_highest_priority_nodes_max [OF hp]
  note s = last_sort_key_max [OF m(1), of "\<lambda>a. compound_priority (h ! a)"]
  have xn_hp: "xn \<in> set hp" using s(1) xn by simp
  then have "xn \<in> set as" using m(2) by auto
  then obtain i where i: "i < length as" "as ! i = xn" by (auto simp: in_set_conv_nth)
  have len: "length ids = length as" using l2 by (rule list_all2_lengthD)
  have "map_of d (ids ! i) = Some (as ! i)" using l2 i(1) by (rule list_all2_nthD2)
  moreover have "ids ! i \<in> set ids" using i(1) len by simp
  ultimately show "\<exists>n \<in> set ids. map_of d n = Some xn" using i(2) by blast
  show "\<forall>n \<in> set ids. \<forall>a. map_of d n = Some a \<longrightarrow>
           priority (h ! a) \<le> priority (h ! xn) \<and>
           (priority (h ! a) = priority (h ! xn) \<longrightarrow>
              compound_priority (h ! a) \<le> compound_priority (h ! xn))"
  proof (intro ballI allI impI)
    fix n a assume n: "n \<in> set ids" and a: "map_of d n = Some a"
    from n obtain j where j: "j < length ids" "ids ! j = n" by (auto simp: in_set_conv_nth)
    have "map_of d (ids ! j) = Some (as ! j)" using l2 j(1) by (rule list_all2_nthD)
    with a j(2) have "a = as ! j" by simp
    with j(1) len have a_as: "a \<in> set as" by simp
    have le: "priority (h ! a) \<le> priority (h ! xn)" using m(3) a_as xn_hp by blast
    have "compound_priority (h ! a) \<le> compound_priority (h ! xn)"
      if eq: "priority (h ! a) = priority (h ! xn)"
    proof -
      from hp a_as have "hp = filter (\<lambda>x. priority (h ! x) = Max (set (map (\<lambda>a. priority (h ! a)) as))) as"
        by (auto simp: get_highest_priority_nodes_def Let_def split: if_splits)
      with xn_hp eq a_as have "a \<in> set hp" by auto
      with s(2) xn show ?thesis by simp
    qed
    with le show "priority (h ! a) \<le> priority (h ! xn) \<and>
           (priority (h ! a) = priority (h ! xn) \<longrightarrow>
              compound_priority (h ! a) \<le> compound_priority (h ! xn))" by blast
  qed
qed

lemma set_ready_ids: "set (ready_ids g futs) = set (root_nodes g) - fst ` set futs"
  by (auto simp: ready_ids_def)


subsection \<open>One iteration\<close>

lemma check_node_Submit:
  assumes "check_node e xn w2 s = Some (Inr (Submit x w' s'))"
  shows "x = xn" and "w' = happen (ev_pick e) w2" and "s' = s"
    and "is_sequential (heap w' ! xn) \<longrightarrow> get_num_running_threads (pool w') (futures s) = 0"
    and "xn_active_in_call (heap w') xn (xns_dict s) = Inr True"
  using assms
  by (auto simp: check_node_def Let_def split: if_splits option.splits sum.splits)

lemma check_node_Continue:
  assumes "check_node e xn w2 s = Some (Inr (Continue w' s'))"
  shows "evolves w2 w'" and "futures s' = futures s" and "xns_dict s' = xns_dict s"
    and "graph s' = graph s \<or>
         remove_recursively (graph s) (xn_id (heap (happen (ev_pick e) w2) ! xn)) = Inr (graph s')"
proof -
  let ?w = "happen (ev_pick e) w2"
  from assms have
    "(\<exists>d r. timed_wait (running s) FIRST_COMPLETED (ev_wait2 e) ?w s = Some (Inr (d, r, w')) \<and>
        s' = s\<lparr>running := r\<rparr>) \<or>
     (\<exists>g. remove_recursively (graph s) (xn_id (heap ?w ! xn)) = Inr g \<and> w' = ?w \<and>
        s' = s\<lparr>graph := g\<rparr>)"
    by (auto simp: check_node_def Let_def split: if_splits option.splits sum.splits)
  then show "evolves w2 w'" and "futures s' = futures s" and "xns_dict s' = xns_dict s"
    and "graph s' = graph s \<or>
         remove_recursively (graph s) (xn_id (heap (happen (ev_pick e) w2) ! xn)) = Inr (graph s')"
    using evolves_trans [OF evolves_happen evolves_happen] evolves_happen
    by (auto dest!: timed_wait_world)
qed

lemma set_update_fresh:
  "k \<notin> fst ` set al \<Longrightarrow> set (AList.update k v al) = insert (k, v) (set al)"
  by (induction al) auto

lemma submit_effect:
  assumes "submit xn w s = (w1, s1)"
  shows "evolves w w1" and "graph s1 = graph s" and "xns_dict s1 = xns_dict s"
    and "futures s1 = AList.update (xn_id (heap w ! xn)) (length (pool w)) (futures s)"
    and "heap w1 = heap w"
proof -
  from assms have w1: "w1 = w\<lparr>pool := pool w @ [\<lparr>task_xn = xn, task_outcome = None\<rparr>]\<rparr>"
    by (auto simp: submit_def Let_def)
  then show "evolves w w1"
    by (auto simp: evolves_def fut_outcome_def nth_append split: if_splits)
  from assms w1 show "graph s1 = graph s" and "xns_dict s1 = xns_dict s"
    and "futures s1 = AList.update (xn_id (heap w ! xn)) (length (pool w)) (futures s)"
    and "heap w1 = heap w"
    by (auto simp: submit_def Let_def)
qed

lemma submit_node_effect:
  assumes "submit_node e xn w s = Some (Inr (w', s'))"
  shows "evolves w w'" and "graph s' = graph s" and "xns_dict s' = xns_dict s"
    and "futures s' = AList.update (xn_id (heap w ! xn)) (length (pool w)) (futures s)"
proof -
  obtain w1 s1 where sub: "submit xn w s = (w1, s1)" by (cases "submit xn w s")
  note eff = submit_effect [OF sub]
  from assms sub have "(w' = w1 \<or> (\<exists>ev. w' = happen ev w1)) \<and>
      (s' = s1 \<or> (\<exists>r. s' = s1\<lparr>running := r\<rparr>))"
    by (auto simp: submit_node_def dest!: timed_wait_world
             split: if_splits option.splits sum.splits)
  then show "evolves w w'" and "graph s' = graph s" and "xns_dict s' = xns_dict s"
    and "futures s' = AList.update (xn_id (heap w ! xn)) (length (pool w)) (futures s)"
    using eff evolves_trans [OF eff(1) evolves_happen] by auto
qed

lemma sched_inv_submit:
  assumes "sched_inv pre g0 w s" and "evolves w w'"
    and "k \<in> set (ready_ids (graph s) (futures s))"
    and "graph s' = graph s" and "xns_dict s' = xns_dict s"
    and "futures s' = AList.update k v (futures s)"
  shows "sched_inv pre g0 w' s'"
proof -
  from assms(3) have fresh: "k \<notin> fst ` set (futures s)"
    and root: "k \<notin> snd ` set (edges (graph s))"
    by (auto simp: ready_ids_def root_nodes_def)
  have futs: "set (futures s') = insert (k, v) (set (futures s))"
    using assms(6) fresh by (simp add: set_update_fresh)
  from assms(1) obtain P where P: "graph s = delete_nodes P g0"
    "justified pre (pool w) (futures s) g0 P"
    and ids: "\<forall>kv \<in> set (xns_dict s). xn_id (heap w ! snd kv) = fst kv"
    and roots: "fst ` set (futures s) \<inter> snd ` set (edges (graph s)) = {}"
    by (auto simp: sched_inv_def)
  have "justified pre (pool w') (futures s') g0 P"
    using P(2) evolves_done [OF assms(2)] by (rule justified_mono) (use futs in auto)
  moreover have "\<forall>kv \<in> set (xns_dict s'). xn_id (heap w' ! snd kv) = fst kv"
    using ids assms(5) by (simp add: evolves_static(1) [OF assms(2)])
  moreover have "fst ` set (futures s') \<inter> snd ` set (edges (graph s')) = {}"
    using roots root futs assms(4) by auto
  ultimately show ?thesis using P(1) assms(4) by (auto simp: sched_inv_def)
qed

lemma loop_pre_inv:
  assumes "sched_inv pre g0 w s" and "loop_pre mc b e w s = Some (Inr act)"
  shows "case act of
           Continue w' s' \<Rightarrow> sched_inv pre g0 w' s'
         | Submit xn w' s' \<Rightarrow> sched_inv pre g0 w' s' \<and>
             xn_id (heap w' ! xn) \<in> set (ready_ids (graph s') (futures s'))"
proof -
  from assms(2) obtain r w2 s2 where p: "pick_node mc b e w s = Some (Inr (r, w2, s2))"
    by (auto simp: loop_pre_def split: option.splits sum.splits)
  note inv2 = pick_node_inv [OF assms(1) p]
  note eff = pick_node_effect [OF p]
  show ?thesis
  proof (cases r)
    case None
    with assms(2) p have "act = Continue w2 s2" by (simp add: loop_pre_def)
    with inv2 show ?thesis by simp
  next
    case (Some xn)
    with assms(2) p have c: "check_node e xn w2 s2 = Some (Inr act)" by (simp add: loop_pre_def)
    from eff(7) Some have ch: "choose_node (heap w2) (xns_dict s2) (runnable_xns_ids s2) = Inr xn"
      by simp
    from choose_node_max(1) [OF ch] obtain n where n: "n \<in> set (runnable_xns_ids s2)"
      "map_of (xns_dict s2) n = Some xn" by blast
    from inv2 n(2) have id2: "xn_id (heap w2 ! xn) = n"
      by (auto simp: sched_inv_def dest!: map_of_SomeD)
    show ?thesis
    proof (cases act)
      case (Continue w' s')
      note cc = check_node_Continue [OF c [unfolded Continue]]
      have 1: "sched_inv pre g0 w' (s2\<lparr>runnable_xns_ids := runnable_xns_ids s'\<rparr>)"
        using inv2 cc(1) by (rule sched_inv_evolves) simp_all
      from cc(4) show ?thesis
      proof
        assume "graph s' = graph s2"
        with inv2 cc have "sched_inv pre g0 w' s'"
          by (intro sched_inv_evolves [OF inv2 cc(1)]) simp_all
        with Continue show ?thesis by simp
      next
        assume "remove_recursively (graph s2) (xn_id (heap (happen (ev_pick e) w2) ! xn)) = Inr (graph s')"
        from remove_recursively_delete [OF this] obtain Q where
          Q: "graph s' = delete_nodes Q (graph s2)"
             "justified (\<lambda>n. False) (pool w') (futures s2) (graph s2) Q" by blast
        have "sched_inv pre g0 w' s'"
          using 1 by (rule sched_inv_delete [where Q = Q]) (use Q cc in simp_all)
        with Continue show ?thesis by simp
      qed
    next
      case (Submit x w' s')
      note cs = check_node_Submit [OF c [unfolded Submit]]
      have ev: "evolves w2 w'" using cs(2) by (simp add: evolves_happen)
      have "sched_inv pre g0 w' s'"
        using inv2 ev by (rule sched_inv_evolves) (simp_all add: cs)
      moreover have "xn_id (heap w' ! xn) = n" using id2 by (simp add: evolves_static(1) [OF ev])
      ultimately show ?thesis using Submit cs n(1) eff(5) by simp
    qed
  qed
qed

lemma loop_body_inv:
  assumes "sched_inv pre g0 w s" and "loop_body mc b e w s = Some (Inr (w', s'))"
  shows "sched_inv pre g0 w' s'"
proof -
  from assms(2) obtain act where l: "loop_pre mc b e w s = Some (Inr act)"
    by (auto simp: loop_body_def split: option.splits sum.splits)
  note pre = loop_pre_inv [OF assms(1) l]
  show ?thesis
  proof (cases act)
    case (Continue w1 s1)
    with assms(2) l pre show ?thesis by (simp add: loop_body_def)
  next
    case (Submit xn w1 s1)
    with assms(2) l have s: "submit_node e xn w1 s1 = Some (Inr (w', s'))"
      by (simp add: loop_body_def)
    note eff = submit_node_effect [OF s]
    from pre Submit have inv1: "sched_inv pre g0 w1 s1"
      and k: "xn_id (heap w1 ! xn) \<in> set (ready_ids (graph s1) (futures s1))" by simp_all
    show ?thesis using inv1 eff(1) k eff(2,3,4) by (rule sched_inv_submit)
  qed
qed

lemma reachable_inv:
  assumes "reachable mc b w0 s0 w s" and "sched_inv pre g0 w0 s0"
  shows "sched_inv pre g0 w s"
  using assms by (induction rule: reachable.induct) (auto intro: loop_body_inv)

subsection \<open>The start of the loop and the order of submissions\<close>

lemma precomputed_set:
  "precomputed h d ns = Inr ids \<Longrightarrow>
   set ids = {n \<in> set ns. \<exists>a. map_of d n = Some a \<and> executed (h ! a)}"
proof (induction ns arbitrary: ids)
  case Nil
  then show ?case by simp
next
  case (Cons n ns)
  from Cons.prems obtain a ids' where a: "map_of d n = Some a"
    and r: "precomputed h d ns = Inr ids'"
    and ids: "ids = (if executed (h ! a) then n # ids' else ids')"
    by (auto simp: getitem_def split: sum.splits option.splits)
  from Cons.IH [OF r] ids a show ?case by auto
qed

lemma remove_nodes_delete:
  "remove_nodes g ids = Inr g' \<Longrightarrow> g' = delete_nodes (\<lambda>n. n \<in> set ids) g"
proof (induction ids arbitrary: g)
  case Nil
  then show ?case by (simp add: delete_nodes_none)
next
  case (Cons i ids)
  from Cons.prems obtain g1 where g1: "remove_node g i = Inr g1"
    and r: "remove_nodes g1 ids = Inr g'" by (auto split: sum.splits)
  from Cons.IH [OF r] remove_node_delete [OF g1]
  have "g' = delete_nodes (\<lambda>n. n = i \<or> n \<in> set ids) g" by (simp add: delete_nodes_twice)
  then show ?case by (simp add: disj_commute)
qed

lemma prepare_effect:
  assumes "prepare node_dict mc g m w = Inr (w0, s0)"
  shows "graph s0 = delete_nodes (\<lambda>n. n \<in> set (nodes g) \<and>
            (\<exists>a. map_of (xns_dict s0) n = Some a \<and> executed (heap w0 ! a))) g"
    and "futures s0 = []" and "0 < mc"
proof -
  obtain h d where hd: "(case m of None \<Rightarrow> copy_non_setup_xns (heap w) node_dict
           | Some m' \<Rightarrow> if m' \<noteq> [] then (heap w, m') else copy_non_setup_xns (heap w) node_dict) = (h, d)"
    by (cases "case m of None \<Rightarrow> copy_non_setup_xns (heap w) node_dict
           | Some m' \<Rightarrow> if m' \<noteq> [] then (heap w, m') else copy_non_setup_xns (heap w) node_dict")
  with assms obtain ids g' where ids: "precomputed h d (nodes g) = Inr ids"
    and g': "remove_nodes g ids = Inr g'" and mc: "\<not> mc \<le> 0"
    and res: "w0 = w\<lparr>heap := h\<rparr>"
       "s0 = \<lparr>xns_dict = d, graph = g', futures = [], done_futs = [], running = [],
              futures_launch_time = [], runnable_xns_ids = root_nodes g'\<rparr>"
    by (auto simp: prepare_def split: sum.splits if_splits)
  from precomputed_set [OF ids] remove_nodes_delete [OF g'] res
  show "graph s0 = delete_nodes (\<lambda>n. n \<in> set (nodes g) \<and>
            (\<exists>a. map_of (xns_dict s0) n = Some a \<and> executed (heap w0 ! a))) g"
    by simp
  show "futures s0 = []" using res by simp
  show "0 < mc" using mc by simp
qed

lemma prepare_inv:
  assumes "prepare node_dict mc g m w = Inr (w0, s0)"
    and "\<forall>kv \<in> set (xns_dict s0). xn_id (heap w0 ! snd kv) = fst kv"
  shows "sched_inv (\<lambda>n. n \<in> set (nodes g) \<and>
            (\<exists>a. map_of (xns_dict s0) n = Some a \<and> executed (heap w0 ! a))) g w0 s0"
  using prepare_effect [OF assms(1)] assms(2)
  by (auto simp: sched_inv_def justified_def)

text \<open>
  Claim C1, amended. Whenever an iteration of the loop of \<^verbatim>\<open>execute\<close> reaches the submission of
  a node \<open>n\<close> (line 237), \<open>n\<close> is a root of the working graph and is not a key of the futures
  table, and every dependency \<open>p\<close> of \<open>n\<close> in the graph given to \<^verbatim>\<open>execute\<close> has left the
  working graph and is either a node that was already executed on entry (removed at lines
  138-140; its run is not invoked in this invocation) or a node whose future is in the
  futures table and done. The state table is keyed by the ids of its nodes.
\<close>

theorem submit_after_dependencies:
  assumes "prepare node_dict max_concurrency g modified_node_dict w_in = Inr (w0, s0)"
    and "\<forall>kv \<in> set (xns_dict s0). xn_id (heap w0 ! snd kv) = fst kv"
    and "reachable max_concurrency behavior w0 s0 w s"
    and "loop_pre max_concurrency behavior e w s = Some (Inr (Submit xn w1 s1))"
  shows "xn_id (heap w1 ! xn) \<in> set (root_nodes (graph s1)) \<and>
         xn_id (heap w1 ! xn) \<notin> fst ` set (futures s1) \<and>
         (\<forall>p. (p, xn_id (heap w1 ! xn)) \<in> set (edges g) \<longrightarrow>
            p \<notin> set (nodes (graph s1)) \<and>
            ((\<exists>a. map_of (xns_dict s0) p = Some a \<and> executed (heap w0 ! a)) \<or>
             (\<exists>f. (p, f) \<in> set (futures s1) \<and> fut_done (pool w1) f)))"
proof -
  let ?pre = "\<lambda>n. n \<in> set (nodes g) \<and>
            (\<exists>a. map_of (xns_dict s0) n = Some a \<and> executed (heap w0 ! a))"
  let ?n = "xn_id (heap w1 ! xn)"
  have "sched_inv ?pre g w s"
    using assms(3) prepare_inv [OF assms(1,2)] by (rule reachable_inv)
  from loop_pre_inv [OF this assms(4)] have inv: "sched_inv ?pre g w1 s1"
    and ready: "?n \<in> set (ready_ids (graph s1) (futures s1))" by simp_all
  from ready have root: "?n \<in> set (root_nodes (graph s1))" and fresh: "?n \<notin> fst ` set (futures s1)"
    by (simp_all add: set_ready_ids)
  from inv obtain P where P: "graph s1 = delete_nodes P g"
    "justified ?pre (pool w1) (futures s1) g P" by (auto simp: sched_inv_def)
  from root P(1) have nP: "\<not> P ?n" and noedge: "?n \<notin> snd ` set (edges (delete_nodes P g))"
    by (auto simp: root_nodes_def delete_nodes_def)
  have "p \<notin> set (nodes (graph s1)) \<and>
            ((\<exists>a. map_of (xns_dict s0) p = Some a \<and> executed (heap w0 ! a)) \<or>
             (\<exists>f. (p, f) \<in> set (futures s1) \<and> fut_done (pool w1) f))"
    if e: "(p, ?n) \<in> set (edges g)" for p
  proof -
    have Pp: "P p"
    proof (rule ccontr)
      assume "\<not> P p"
      with nP e have "(p, ?n) \<in> set (edges (delete_nodes P g))" by (simp add: delete_nodes_def)
      then have "?n \<in> snd ` set (edges (delete_nodes P g))" by force
      with noedge show False by contradiction
    qed
    then have "p \<notin> set (nodes (graph s1))" using P(1) by (simp add: delete_nodes_def)
    moreover from P(2) e Pp nP have "?pre p \<or> (\<exists>f. (p, f) \<in> set (futures s1) \<and> fut_done (pool w1) f)"
      unfolding justified_def by fastforce
    ultimately show ?thesis by blast
  qed
  with root fresh show ?thesis by blast
qed

subsection \<open>Pruned nodes\<close>

lemma delete_nodes_subset: "set (nodes (delete_nodes Q g)) \<subseteq> set (nodes g)"
  by (auto simp: delete_nodes_def)

lemma loop_pre_frame:
  assumes "loop_pre mc b e w s = Some (Inr act)"
  shows "case act of
           Continue w' s' \<Rightarrow> futures s' = futures s \<and> set (nodes (graph s')) \<subseteq> set (nodes (graph s))
         | Submit xn w' s' \<Rightarrow> futures s' = futures s \<and> set (nodes (graph s')) \<subseteq> set (nodes (graph s))"
proof -
  from assms obtain r w2 s2 where p: "pick_node mc b e w s = Some (Inr (r, w2, s2))"
    by (auto simp: loop_pre_def split: option.splits sum.splits)
  note eff = pick_node_effect [OF p]
  from reap_delete [OF subset_refl eff(4)] obtain Q where "graph s2 = delete_nodes Q (graph s)"
    by blast
  then have sub2: "set (nodes (graph s2)) \<subseteq> set (nodes (graph s))"
    by (simp add: delete_nodes_subset)
  show ?thesis
  proof (cases r)
    case None
    with assms p have "act = Continue w2 s2" by (simp add: loop_pre_def)
    with sub2 eff(2) show ?thesis by simp
  next
    case (Some xn)
    with assms p have c: "check_node e xn w2 s2 = Some (Inr act)" by (simp add: loop_pre_def)
    show ?thesis
    proof (cases act)
      case (Continue w' s')
      note cc = check_node_Continue [OF c [unfolded Continue]]
      from cc(4) have "set (nodes (graph s')) \<subseteq> set (nodes (graph s2))"
      proof
        assume "graph s' = graph s2" then show ?thesis by simp
      next
        assume "remove_recursively (graph s2) (xn_id (heap (happen (ev_pick e) w2) ! xn)) = Inr (graph s')"
        from remove_recursively_delete [OF this, of "[]" "[]"] show ?thesis
          by (auto simp: delete_nodes_def)
      qed
      with sub2 cc(2) eff(2) Continue show ?thesis by auto
    next
      case (Submit x w' s')
      note cs = check_node_Submit [OF c [unfolded Submit]]
      with sub2 eff(2) Submit show ?thesis by simp
    qed
  qed
qed

lemma dom_update_keys: "fst ` set (AList.update k v al) = insert k (fst ` set al)"
  using dom_update [of k v al] by auto

lemma loop_body_frame:
  assumes "sched_inv pre g0 w s" and "loop_body mc b e w s = Some (Inr (w', s'))"
  shows "set (nodes (graph s')) \<subseteq> set (nodes (graph s))"
    and "fst ` set (futures s') \<subseteq> fst ` set (futures s) \<union> set (nodes (graph s))"
proof -
  from assms(2) obtain act where l: "loop_pre mc b e w s = Some (Inr act)"
    by (auto simp: loop_body_def split: option.splits sum.splits)
  note fr = loop_pre_frame [OF l]
  note inv = loop_pre_inv [OF assms(1) l]
  have "set (nodes (graph s')) \<subseteq> set (nodes (graph s)) \<and>
        fst ` set (futures s') \<subseteq> fst ` set (futures s) \<union> set (nodes (graph s))"
  proof (cases act)
    case (Continue w1 s1)
    with assms(2) l fr show ?thesis by (auto simp: loop_body_def)
  next
    case (Submit xn w1 s1)
    with assms(2) l have s: "submit_node e xn w1 s1 = Some (Inr (w', s'))"
      by (simp add: loop_body_def)
    note eff = submit_node_effect [OF s]
    from inv Submit have "xn_id (heap w1 ! xn) \<in> set (ready_ids (graph s1) (futures s1))" by simp
    then have "xn_id (heap w1 ! xn) \<in> set (nodes (graph s1))"
      by (auto simp: ready_ids_def root_nodes_def)
    with fr Submit eff show ?thesis by (auto simp: dom_update_keys)
  qed
  then show "set (nodes (graph s')) \<subseteq> set (nodes (graph s))"
    and "fst ` set (futures s') \<subseteq> fst ` set (futures s) \<union> set (nodes (graph s))" by simp_all
qed

lemma reachable_frame:
  assumes "reachable mc b wa sa w s" and "sched_inv pre g0 wa sa"
  shows "set (nodes (graph s)) \<subseteq> set (nodes (graph sa)) \<and>
         fst ` set (futures s) \<subseteq> fst ` set (futures sa) \<union> set (nodes (graph sa))"
  using assms
proof (induction rule: reachable.induct)
  case start
  show ?case by simp
next
  case (iteration w s e w' s')
  have inv: "sched_inv pre g0 w s" using iteration.hyps(1) iteration.prems by (rule reachable_inv)
  from loop_body_frame [OF inv iteration.hyps(3)] iteration.IH [OF iteration.prems]
  show ?case by blast
qed

text \<open>
  Claim C8. If the node picked in an iteration reaches the activation check (it is not a
  sequential node that has to wait for running futures) and its \<^verbatim>\<open>active\<close> attribute
  evaluates false (the literal \<^verbatim>\<open>False\<close>, or a reference to a node whose result in the state
  table is falsy), the scheduler removes it with \<^verbatim>\<open>remove_recursively\<close> and the iteration
  ends there, the loop continues; from then on neither the node nor any of its transitive
  descendants in the working graph is ever in the futures table or in the working graph:
  their run is never called.
\<close>

theorem inactive_node_never_runs:
  assumes "prepare node_dict max_concurrency g modified_node_dict w_in = Inr (w0, s0)"
    and "\<forall>kv \<in> set (xns_dict s0). xn_id (heap w0 ! snd kv) = fst kv"
    and "reachable max_concurrency behavior w0 s0 w s"
    and "pick_node max_concurrency behavior e w s = Some (Inr (Some xn, w2, s2))"
    and "w3 = happen (ev_pick e) w2"
    and "\<not> (is_sequential (heap w3 ! xn) \<and> get_num_running_threads (pool w3) (futures s2) \<noteq> 0)"
    and "active (heap w3 ! xn) = ActiveBool False \<or>
         (\<exists>r a. active (heap w3 ! xn) = ActiveRef r \<and> map_of (xns_dict s2) r = Some a \<and>
                 \<not> truthy (result (heap w3 ! a)))"
  shows "\<exists>g'. remove_recursively (graph s2) (xn_id (heap w3 ! xn)) = Inr g' \<and>
           loop_body max_concurrency behavior e w s = Some (Inr (w3, s2\<lparr>graph := g'\<rparr>)) \<and>
           (\<forall>w' s' d. reachable max_concurrency behavior w3 (s2\<lparr>graph := g'\<rparr>) w' s' \<longrightarrow>
              d = xn_id (heap w3 ! xn) \<or> (xn_id (heap w3 ! xn), d) \<in> (set (edges (graph s2)))\<^sup>+ \<longrightarrow>
              d \<notin> fst ` set (futures s') \<and> d \<notin> set (nodes (graph s')))"
proof -
  let ?pre = "\<lambda>n. n \<in> set (nodes g) \<and>
            (\<exists>a. map_of (xns_dict s0) n = Some a \<and> executed (heap w0 ! a))"
  let ?i = "xn_id (heap w3 ! xn)"
  have inv: "sched_inv ?pre g w s"
    using assms(3) prepare_inv [OF assms(1,2)] by (rule reachable_inv)
  note inv2 = pick_node_inv [OF inv assms(4)]
  note eff = pick_node_effect [OF assms(4)]
  from eff(7) have ch: "choose_node (heap w2) (xns_dict s2) (runnable_xns_ids s2) = Inr xn" by simp
  from choose_node_max(1) [OF ch] obtain n where n: "n \<in> set (runnable_xns_ids s2)"
    "map_of (xns_dict s2) n = Some xn" by blast
  from inv2 n(2) have "xn_id (heap w2 ! xn) = n"
    by (auto simp: sched_inv_def dest!: map_of_SomeD)
  then have i: "?i = n" using assms(5) by (simp add: evolves_static(1) [OF evolves_happen])
  from n(1) eff(5) i have ready: "?i \<in> set (ready_ids (graph s2) (futures s2))" by simp
  then have in_g: "?i \<in> set (nodes (graph s2))" and fresh: "?i \<notin> fst ` set (futures s2)"
    by (auto simp: ready_ids_def root_nodes_def)
  let ?Q = "\<lambda>d. d = ?i \<or> (?i, d) \<in> (set (edges (graph s2)))\<^sup>+"
  let ?g' = "delete_nodes ?Q (graph s2)"
  have rr: "remove_recursively (graph s2) ?i = Inr ?g'"
    using in_g by (simp add: remove_recursively_def)
  have act: "xn_active_in_call (heap w3) xn (xns_dict s2) = Inr False"
    using assms(7) by (auto simp: xn_active_in_call_def getitem_def)
  have cn: "check_node e xn w2 s2 = Some (Inr (Continue w3 (s2\<lparr>graph := ?g'\<rparr>)))"
  proof -
    have nw: "\<not> (is_sequential (heap (happen (ev_pick e) w2) ! xn) \<and>
         get_num_running_threads (pool (happen (ev_pick e) w2)) (futures s2) \<noteq> 0)"
      using assms(5,6) by simp
    show ?thesis
      unfolding check_node_def Let_def if_not_P [OF nw]
      using act rr assms(5) by simp
  qed
  have lb: "loop_body max_concurrency behavior e w s = Some (Inr (w3, s2\<lparr>graph := ?g'\<rparr>))"
    using assms(4) cn by (simp add: loop_body_def loop_pre_def)
  have inv3: "sched_inv ?pre g w3 (s2\<lparr>graph := ?g'\<rparr>)" using inv lb by (rule loop_body_inv)
  have never: "d \<notin> fst ` set (futures s') \<and> d \<notin> set (nodes (graph s'))"
    if r: "reachable max_concurrency behavior w3 (s2\<lparr>graph := ?g'\<rparr>) w' s'" and d: "?Q d"
    for w' s' d
  proof -
    have d_fresh: "d \<notin> fst ` set (futures s2)"
    proof (cases "d = ?i")
      case True
      with fresh show ?thesis by simp
    next
      case False
      with d have "(?i, d) \<in> (set (edges (graph s2)))\<^sup>+" by simp
      then have "d \<in> snd ` set (edges (graph s2))" by (auto dest!: tranclD2 intro: rev_image_eqI)
      with inv2 show ?thesis by (auto simp: sched_inv_def)
    qed
    have d_gone: "d \<notin> set (nodes ?g')" using d by (simp add: delete_nodes_def)
    from reachable_frame [OF r inv3] d_fresh d_gone show ?thesis by auto
  qed
  from rr lb never show ?thesis by blast
qed

subsection \<open>Timeouts\<close>








subsection \<open>The error strategy and the state table\<close>




subsection \<open>Example runs\<close>

lemmas world_defs = happen_def complete_def fut_done_def fut_outcome_def wait_def
lemmas sched_defs = pick_node_def block_if_needed_def timed_wait_def get_next_timeout_def
  get_num_running_threads_def raise_timeout_error_conditionally_def ready_ids_def root_nodes_def
  choose_node_def getitem_def get_highest_priority_nodes_def check_node_def xn_active_in_call_def
  loop_pre_def loop_body_def submit_node_def submit_def remove_node_def delete_nodes_def
  handle_exception_def successors_def len_def prepare_def entry_sched_def
lemmas example_defs = plain_node_def quiet_def calm_def

lemma ab_prepare: "prepare ab_dict 1 ab_graph (Some ab_dict) ab_world = Inr (ab_world, ab_entry)"
  by (simp add: sched_defs example_defs ab_dict_def ab_graph_def ab_world_def ab_entry_def)

lemma ab_loop_pre: "loop_pre 1 strict calm ab_world ab_entry = Some (Inr (Submit 1 ab_world ab_entry))"
  by (simp add: sched_defs world_defs example_defs ab_dict_def ab_world_def ab_entry_def)

text \<open>
  The claim C1 as first stated (every dependency has had its run invoked and completed)
  fails for a dependency that is executed on entry: in the graph \<open>a \<rightarrow> b\<close> with \<open>a\<close> executed,
  \<open>b\<close> is submitted in the first iteration and \<open>a\<close> never gets a future.
\<close>

theorem dependency_never_run_counterexample:
  "prepare ab_dict 1 ab_graph (Some ab_dict) ab_world = Inr (ab_world, ab_entry) \<and>
   loop_pre 1 strict calm ab_world ab_entry = Some (Inr (Submit 1 ab_world ab_entry)) \<and>
   xn_id (heap ab_world ! 1) = ''b'' \<and> (''a'', ''b'') \<in> set (edges ab_graph) \<and>
   ''a'' \<notin> fst ` set (futures ab_entry)"
  using ab_prepare ab_loop_pre
  by (simp add: ab_world_def ab_graph_def ab_entry_def entry_sched_def plain_node_def)

text \<open>A witness of claim C1, amended, in the same run.\<close>

theorem submit_after_dependencies_witness:
  "''b'' \<in> set (root_nodes (graph ab_entry)) \<and> ''b'' \<notin> fst ` set (futures ab_entry) \<and>
   ''a'' \<notin> set (nodes (graph ab_entry)) \<and>
   ((\<exists>a. map_of (xns_dict ab_entry) ''a'' = Some a \<and> executed (heap ab_world ! a)) \<or>
    (\<exists>f. (''a'', f) \<in> set (futures ab_entry) \<and> fut_done (pool ab_world) f))"
proof -
  have ids: "\<forall>kv \<in> set (xns_dict ab_entry). xn_id (heap ab_world ! snd kv) = fst kv"
    by (simp add: ab_entry_def entry_sched_def ab_dict_def ab_world_def plain_node_def)
  have r: "reachable 1 strict ab_world ab_entry ab_world ab_entry" by (rule reachable.start)
  have b: "xn_id (heap ab_world ! 1) = ''b''" by (simp add: ab_world_def plain_node_def)
  have e: "(''a'', ''b'') \<in> set (edges ab_graph)" by (simp add: ab_graph_def)
  from submit_after_dependencies [OF ab_prepare ids r ab_loop_pre] b e
  show ?thesis by auto
qed

text \<open>A witness of claim C4: the deadlines are 5/2 and 5, the next timeout is 3/2.\<close>

theorem get_next_timeout_minimum_witness:
  "candidate_deadlines clock_world clock_launch clock_futures clock_dict = [5/2, 5] \<and>
   get_next_timeout clock_world clock_launch clock_futures clock_dict = Inr (Some (3/2))"
proof -
  have keys: "\<forall>kv \<in> set clock_futures. \<not> fut_done (pool clock_world) (snd kv) \<longrightarrow>
             fst kv \<in> fst ` set clock_launch \<and> fst kv \<in> fst ` set clock_dict"
    by (simp add: clock_futures_def clock_launch_def clock_dict_def)
  have c: "candidate_deadlines clock_world clock_launch clock_futures clock_dict = [5/2, 5]"
    by (simp add: candidate_deadlines_def candidate_def map_filter_simps clock_futures_def
        clock_launch_def clock_dict_def clock_world_def fut_done_def fut_outcome_def plain_node_def)
  from get_next_timeout_minimum [OF keys] c show ?thesis
    by (simp add: clock_world_def)
qed



lemmas seq_defs = seq_dict_def seq_graph_def seq_world0_def seq_sched0_def seq_env_def
  seq_world1_def seq_sched1_def seq_world_picked_def seq_sched_picked_def
  seq_world_submitted_def seq_sched_submitted_def seq_world2_def seq_sched2_def

















lemma seq_iteration1:
  "loop_body 2 strict calm seq_world0 seq_sched0 = Some (Inr (seq_world1, seq_sched1))"
  by (simp add: sched_defs world_defs example_defs seq_defs)




lemma seq_iteration2:
  "loop_body 2 strict seq_env seq_world1 seq_sched1 = Some (Inr (seq_world2, seq_sched2))"
  by (simp add: sched_defs world_defs example_defs seq_defs)

lemma seq_pre3:
  "loop_pre 2 strict calm seq_world2 seq_sched2 =
     Some (Inr (Submit 2 seq_world2 (seq_sched2\<lparr>runnable_xns_ids := [''c'']\<rparr>)))"
  by (simp add: sched_defs world_defs example_defs seq_defs)

lemma seq_reachable1: "reachable 2 strict seq_world0 seq_sched0 seq_world1 seq_sched1"
proof -
  have "len (graph seq_sched0) \<noteq> 0" by (simp add: len_def seq_defs entry_sched_def)
  with reachable.start show ?thesis using seq_iteration1 by (rule reachable.iteration)
qed

lemma seq_reachable2: "reachable 2 strict seq_world0 seq_sched0 seq_world2 seq_sched2"
proof -
  have "len (graph seq_sched1) \<noteq> 0" by (simp add: len_def seq_defs entry_sched_def)
  with seq_reachable1 show ?thesis using seq_iteration2 by (rule reachable.iteration)
qed

text \<open>The first half of claim C2 holds: a sequential node reaches its submission only when
  no submitted future is running.\<close>

lemma sequential_node_submitted_alone:
  assumes "loop_pre mc b e w s = Some (Inr (Submit xn w1 s1))" and "is_sequential (heap w1 ! xn)"
  shows "get_num_running_threads (pool w1) (futures s1) = 0"
proof -
  from assms(1) obtain w2 s2 where p: "pick_node mc b e w s = Some (Inr (Some xn, w2, s2))"
    and c: "check_node e xn w2 s2 = Some (Inr (Submit xn w1 s1))"
    by (auto simp: loop_pre_def check_node_def Let_def
             split: option.splits sum.splits prod.splits if_splits)
  from check_node_Submit [OF c] assms(2) show ?thesis by simp
qed


text \<open>
  Claim C2 fails on the code, by the same defect: in the state the run above has reached,
  the next iteration submits \<open>c\<close> while the future of the sequential node \<open>b\<close> is not done,
  and then the futures of \<open>b\<close> and \<open>c\<close> are both not done.
\<close>

theorem node_submitted_while_sequential_runs:
  "reachable 2 strict seq_world0 seq_sched0 seq_world2 seq_sched2 \<and>
   map_of (futures seq_sched2) ''b'' = Some 1 \<and>
   is_sequential (heap seq_world2 ! 1) \<and> \<not> fut_done (pool seq_world2) 1 \<and>
   loop_pre 2 strict calm seq_world2 seq_sched2 =
     Some (Inr (Submit 2 seq_world2 (seq_sched2\<lparr>runnable_xns_ids := [''c'']\<rparr>))) \<and>
   xn_id (heap seq_world2 ! 2) = ''c'' \<and>
   (case loop_body 2 strict calm seq_world2 seq_sched2 of
      Some (Inr (w, s)) \<Rightarrow> get_num_running_threads (pool w) (futures s) = 2 \<and>
                           map fst (futures s) = [''a'', ''b'', ''c'']
    | _ \<Rightarrow> False)"
  using seq_reachable2 seq_pre3
  by (simp add: seq_defs plain_node_def fut_done_def fut_outcome_def loop_body_def submit_node_def
      submit_def get_num_running_threads_def)

text \<open>
  Claim C7 fails on the code. Under \<^verbatim>\<open>all_children\<close>, \<^verbatim>\<open>handle_exception\<close> calls
  \<^verbatim>\<open>remove_recursively\<close> on each direct successor listed before the first removal. When a
  successor is also a descendant of an earlier one (\<open>c\<close> below), it has left the graph when
  its turn comes, the removal fails and the invocation aborts.
\<close>

theorem all_children_aborts_on_shared_descendant:
  "successors dia_graph ''a'' = [''b'', ''c''] \<and>
   remove_recursively dia_graph ''b'' = Inr \<lparr>nodes = [''a''], edges = []\<rparr> \<and>
   handle_exception all_children dia_graph (Inl ''boom'') ''a'' = Inl (GraphError ''c'') \<and>
   execute dia_dict 1 all_children dia_graph (Some dia_dict) [calm, dia_env] dia_world =
     Some (Inl (GraphError ''c''))"
  by code_simp

lemmas cond_defs = cond_dict_def cond_graph_def cond_world_def cond_entry_def

lemma cond_prepare: "prepare cond_dict 2 cond_graph (Some cond_dict) cond_world = Inr (cond_world, cond_entry)"
  by (simp add: sched_defs example_defs cond_defs)

lemma cond_pick: "pick_node 2 strict calm cond_world cond_entry = Some (Inr (Some 1, cond_world, cond_entry))"
  by (simp add: sched_defs world_defs example_defs cond_defs)

lemma cond_remove:
  "remove_recursively (graph cond_entry) ''x'' = Inr \<lparr>nodes = [''z''], edges = []\<rparr>"
  by code_simp

text \<open>A witness of claim C8: \<open>x\<close> is pruned with \<open>y\<close>, and \<open>z\<close> stays.\<close>

theorem inactive_node_never_runs_witness:
  "remove_recursively (graph cond_entry) ''x'' = Inr \<lparr>nodes = [''z''], edges = []\<rparr> \<and>
   loop_body 2 strict calm cond_world cond_entry =
     Some (Inr (cond_world, cond_entry\<lparr>graph := \<lparr>nodes = [''z''], edges = []\<rparr>\<rparr>)) \<and>
   ''y'' \<notin> fst ` set (futures (cond_entry\<lparr>graph := \<lparr>nodes = [''z''], edges = []\<rparr>\<rparr>)) \<and>
   ''y'' \<notin> set (nodes (graph (cond_entry\<lparr>graph := \<lparr>nodes = [''z''], edges = []\<rparr>\<rparr>)))"
proof -
  have ids: "\<forall>kv \<in> set (xns_dict cond_entry). xn_id (heap cond_world ! snd kv) = fst kv"
    by (simp add: cond_defs entry_sched_def plain_node_def)
  have r: "reachable 2 strict cond_world cond_entry cond_world cond_entry" by (rule reachable.start)
  have w3: "cond_world = happen (ev_pick calm) cond_world"
    by (simp add: happen_def calm_def quiet_def cond_world_def)
  have ns: "\<not> (is_sequential (heap cond_world ! 1) \<and>
              get_num_running_threads (pool cond_world) (futures cond_entry) \<noteq> 0)"
    by (simp add: cond_defs plain_node_def)
  have ina: "active (heap cond_world ! 1) = ActiveBool False \<or>
         (\<exists>r a. active (heap cond_world ! 1) = ActiveRef r \<and> map_of (xns_dict cond_entry) r = Some a \<and>
                 \<not> truthy (result (heap cond_world ! a)))"
    by (simp add: cond_defs plain_node_def entry_sched_def)
  have x: "xn_id (heap cond_world ! 1) = ''x''" by (simp add: cond_world_def plain_node_def)
  have y: "(''x'', ''y'') \<in> (set (edges (graph cond_entry)))\<^sup>+"
    by (rule r_into_trancl) (simp add: cond_entry_def entry_sched_def)
  from inactive_node_never_runs [OF cond_prepare ids r cond_pick w3 ns ina]
  obtain g' where g': "remove_recursively (graph cond_entry) ''x'' = Inr g'"
    and lb: "loop_body 2 strict calm cond_world cond_entry = Some (Inr (cond_world, cond_entry\<lparr>graph := g'\<rparr>))"
    and never: "\<forall>w' s' d. reachable 2 strict cond_world (cond_entry\<lparr>graph := g'\<rparr>) w' s' \<longrightarrow>
              d = ''x'' \<or> (''x'', d) \<in> (set (edges (graph cond_entry)))\<^sup>+ \<longrightarrow>
              d \<notin> fst ` set (futures s') \<and> d \<notin> set (nodes (graph s'))"
    unfolding x by blast
  from g' cond_remove have eq: "g' = \<lparr>nodes = [''z''], edges = []\<rparr>" by simp
  have "reachable 2 strict cond_world (cond_entry\<lparr>graph := g'\<rparr>) cond_world (cond_entry\<lparr>graph := g'\<rparr>)"
    by (rule reachable.start)
  with never y have "''y'' \<notin> fst ` set (futures (cond_entry\<lparr>graph := g'\<rparr>)) \<and>
     ''y'' \<notin> set (nodes (graph (cond_entry\<lparr>graph := g'\<rparr>)))" by blast
  with g' lb eq show ?thesis by simp
qed

end
